theory Spec2Isabelle
  imports Main "HOL-Library.Word"
begin

section \<open>Strings and paths\<close>

text \<open>
  The program is Go; its paths are Go strings (byte sequences), modelled as \<open>string\<close>.
  The functions of packages \<open>strings\<close> and \<open>path/filepath\<close> that \<open>main.go\<close> calls are
  modelled for a Unix target, where \<open>os.PathSeparator\<close> is the slash and there are no
  volume names.
\<close>

definition Separator :: char where
  "Separator = CHR ''/''"

definition HasPrefix :: "string \<Rightarrow> string \<Rightarrow> bool" where
  "HasPrefix s pre = (length pre \<le> length s \<and> take (length pre) s = pre)"

definition HasSuffix :: "string \<Rightarrow> string \<Rightarrow> bool" where
  "HasSuffix s suf = (length suf \<le> length s \<and> drop (length s - length suf) s = suf)"

definition TrimPrefix :: "string \<Rightarrow> string \<Rightarrow> string" where
  "TrimPrefix s pre = (if HasPrefix s pre then drop (length pre) s else s)"

text \<open>\<open>strings.Contains\<close>: the second string occurs in the first.\<close>

fun Contains :: "string \<Rightarrow> string \<Rightarrow> bool" where
  "Contains [] sub = (sub = [])"
| "Contains (c # cs) sub = (HasPrefix (c # cs) sub \<or> Contains cs sub)"

text \<open>\<open>strings.Split(s, "/")\<close> and \<open>strings.Join(elems, "/")\<close>.\<close>

fun splitSep :: "string \<Rightarrow> string list" where
  "splitSep [] = [[]]"
| "splitSep (c # cs) =
     (if c = Separator then [] # splitSep cs
      else (case splitSep cs of [] \<Rightarrow> [[c]] | e # es \<Rightarrow> (c # e) # es))"

fun joinSep :: "string list \<Rightarrow> string" where
  "joinSep [] = []"
| "joinSep [e] = e"
| "joinSep (e # f # es) = e @ Separator # joinSep (f # es)"

text \<open>
  \<open>filepath.Clean\<close> reads the path element by element and keeps the elements written so
  far: an empty element and \<open>.\<close> are dropped; \<open>..\<close> removes the last element written when
  that is a real element, is dropped at the top of a rooted path, and is written
  otherwise (the leading \<open>..\<close> elements of a relative path).
\<close>

fun cleanElems :: "bool \<Rightarrow> string list \<Rightarrow> string list \<Rightarrow> string list" where
  "cleanElems rooted out [] = out"
| "cleanElems rooted out (e # es) =
     (if e = [] \<or> e = ''.'' then cleanElems rooted out es
      else if e = ''..'' then
        (if out \<noteq> [] \<and> last out \<noteq> ''..'' then cleanElems rooted (butlast out) es
         else if rooted then cleanElems rooted out es
         else cleanElems rooted (out @ [''..'']) es)
      else cleanElems rooted (out @ [e]) es)"

definition Clean :: "string \<Rightarrow> string" where
  "Clean path =
     (if path = [] then ''.''
      else let rooted = (hd path = Separator);
               out = cleanElems rooted [] (splitSep path)
           in if rooted then Separator # joinSep out
              else if out = [] then ''.'' else joinSep out)"

text \<open>\<open>filepath.Join\<close> of two elements: empty elements are ignored, the rest is cleaned.\<close>

definition Join :: "string \<Rightarrow> string \<Rightarrow> string" where
  "Join a b =
     (if a \<noteq> [] then Clean (a @ Separator # b)
      else if b \<noteq> [] then Clean b
      else [])"

text \<open>\<open>filepath.Dir\<close>: all but the last element of the path, cleaned.\<close>

definition Dir :: "string \<Rightarrow> string" where
  "Dir path = Clean (rev (dropWhile (\<lambda>c. c \<noteq> Separator) (rev path)))"

section \<open>Errors\<close>

text \<open>
  Go's \<open>error\<close> values: \<open>nil\<close> is \<open>None\<close>. The operating system's errors are
  \<open>*os.PathError\<close> values (operation, path, cause); the storage client's errors are opaque
  to the program and carried as their message.
\<close>

datatype error =
    PathError string string string
  | ZipFormatError
  | IllegalFilePath string
  | ServiceError string

fun errorString :: "error \<Rightarrow> string" where
  "errorString (PathError opn path msg) = opn @ '' '' @ path @ '': '' @ msg"
| "errorString ZipFormatError = ''zip: not a valid zip file''"
| "errorString (IllegalFilePath name) = ''illegal file path: '' @ name"
| "errorString (ServiceError msg) = msg"

section \<open>Directory snapshots and \<open>filepath.Walk\<close>\<close>

text \<open>
  \<open>buildTree\<close> and \<open>filepath.Walk\<close> only read the file system. What they can see of it is a
  snapshot: a file, a directory with its listing (in the order \<open>os.ReadDir\<close> and
  \<open>readDirNames\<close> return it), a directory whose listing fails with an error, or a name
  whose \<open>Lstat\<close> fails with an error.
\<close>

datatype ftree =
    RegularFile
  | Folder "(string \<times> ftree) list"
  | UnreadableFolder error
  | NoEntry error

text \<open>
  The walk function receives the path, the file info (here: whether it is a directory;
  \<open>None\<close> is Go's \<open>nil\<close> info) and the error of reaching the path; it returns the new
  state of what it closes over and an error. \<open>walk\<close> follows \<open>filepath.Walk\<close> and its
  helper: the function is called on every path, a non-nil result stops the walk, and
  the children of a directory are visited in listing order under \<open>Join path name\<close>.
  (The results \<open>SkipDir\<close> and \<open>SkipAll\<close> are not errors the program's walk function
  returns, and are not modelled.)
\<close>

type_synonym 's WalkFunc = "'s \<Rightarrow> string \<Rightarrow> bool option \<Rightarrow> error option \<Rightarrow> 's \<times> error option"

fun walk :: "ftree \<Rightarrow> string \<Rightarrow> 's WalkFunc \<Rightarrow> 's \<Rightarrow> 's \<times> error option"
  and walkNames :: "(string \<times> ftree) list \<Rightarrow> string \<Rightarrow> 's WalkFunc \<Rightarrow> 's \<Rightarrow> 's \<times> error option"
where
  "walk (NoEntry err) path walkFn s = walkFn s path None (Some err)"
| "walk RegularFile path walkFn s = walkFn s path (Some False) None"
| "walk (UnreadableFolder err) path walkFn s = walkFn s path (Some True) (Some err)"
| "walk (Folder names) path walkFn s =
     (case walkFn s path (Some True) None of
        (s1, Some e) \<Rightarrow> (s1, Some e)
      | (s1, None) \<Rightarrow> walkNames names path walkFn s1)"
| "walkNames [] path walkFn s = (s, None)"
| "walkNames ((name, t) # rest) path walkFn s =
     (case walk t (Join path name) walkFn s of
        (s1, Some e) \<Rightarrow> (s1, Some e)
      | (s1, None) \<Rightarrow> walkNames rest path walkFn s1)"

definition Walk :: "ftree \<Rightarrow> string \<Rightarrow> 's WalkFunc \<Rightarrow> 's \<Rightarrow> 's \<times> error option" where
  "Walk t root walkFn s = walk t root walkFn s"

section \<open>The upload of a directory\<close>

text \<open>
  What the upload does to the outside is kept as a list of events, in order: the two
  counters after each write to one of them, the calls of \<open>os.Open\<close> and of the client's
  \<open>PutObject\<close> with their results, and the lines printed. (Timestamps and the
  wait group are left out.)
\<close>

datatype event =
    Counters "64 word" "64 word"
  | OsOpen string "error option"
  | PutObject string string string "error option"
  | PrintProgress "64 word" "64 word" string
  | PrintError string
  | PrintDone string

record 'c upload =
  totalFiles :: "64 word"
  uploadedFiles :: "64 word"
  s3Client :: 'c
  events :: "event list"

type_synonym 'c putObject = "'c \<Rightarrow> string \<Rightarrow> string \<Rightarrow> string \<Rightarrow> 'c \<times> error option"

definition uploadFileToS3 ::
  "(string \<Rightarrow> error + string) \<Rightarrow> 'c putObject \<Rightarrow> 'c \<times> event list \<Rightarrow> string \<Rightarrow> string \<Rightarrow> string
     \<Rightarrow> ('c \<times> event list) \<times> error option" where
  "uploadFileToS3 osOpen put ce bucketName filePath key =
     (case osOpen filePath of
        Inl err \<Rightarrow> ((fst ce, snd ce @ [OsOpen filePath (Some err)]), Some err)
      | Inr file \<Rightarrow>
          (case put (fst ce) bucketName key file of
             (c1, res) \<Rightarrow>
               ((c1, snd ce @ [OsOpen filePath None, PutObject bucketName key file res]), res)))"

definition printProgress :: "64 word \<Rightarrow> 64 word \<Rightarrow> string \<Rightarrow> event" where
  "printProgress nUploaded nTotal fileName = PrintProgress nUploaded nTotal fileName"

text \<open>The function literal passed to \<open>filepath.Walk\<close>.\<close>

definition uploadWalkFn ::
  "(string \<Rightarrow> error + string) \<Rightarrow> 'c putObject \<Rightarrow> string \<Rightarrow> string \<Rightarrow> string \<Rightarrow> 'c upload WalkFunc" where
  "uploadWalkFn osOpen put bucketName directoryPath prefix st path info err =
     (case err of
        Some e \<Rightarrow> (st, Some e)
      | None \<Rightarrow>
          if info = Some True then (st, None)
          else
            let total1 = totalFiles st + 1;
                ev1 = events st @ [Counters total1 (uploadedFiles st)];
                relativePath = TrimPrefix path directoryPath;
                key = Join prefix relativePath
            in (case uploadFileToS3 osOpen put (s3Client st, ev1) bucketName path key of
                  ((c1, ev2), Some e) \<Rightarrow>
                    (st\<lparr>totalFiles := total1, s3Client := c1, events := ev2\<rparr>, Some e)
                | ((c1, ev2), None) \<Rightarrow>
                    let uploaded1 = uploadedFiles st + 1
                    in (st\<lparr>totalFiles := total1, uploadedFiles := uploaded1, s3Client := c1,
                           events := ev2 @ [Counters total1 uploaded1,
                                            printProgress uploaded1 total1 path]\<rparr>, None)))"

text \<open>The line \<open>Printf("Error uploading directory %s: %s\\n", directoryPath, err.Error())\<close>.\<close>

definition errorLine :: "string \<Rightarrow> error \<Rightarrow> string" where
  "errorLine directoryPath err =
     ''Error uploading directory '' @ directoryPath @ '': '' @ errorString err @ [CHR 0x0A]"

definition uploadDirectoryToS3 ::
  "(string \<Rightarrow> error + string) \<Rightarrow> 'c putObject \<Rightarrow> 'c \<Rightarrow> string \<Rightarrow> ftree \<Rightarrow> string \<Rightarrow> string \<Rightarrow> 'c upload" where
  "uploadDirectoryToS3 osOpen put c bucketName tree directoryPath prefix =
     (case Walk tree directoryPath (uploadWalkFn osOpen put bucketName directoryPath prefix)
             \<lparr>totalFiles = 0, uploadedFiles = 0, s3Client = c, events = []\<rparr> of
        (st, Some e) \<Rightarrow> st\<lparr>events := events st @ [PrintError (errorLine directoryPath e)]\<rparr>
      | (st, None) \<Rightarrow> st\<lparr>events := events st @ [PrintDone directoryPath]\<rparr>)"

section \<open>The directory tree\<close>

datatype TreeNode = TreeNode (Name: string) (Children: "TreeNode list")

text \<open>
  \<open>os.ReadDir\<close> on a path of the snapshot, and \<open>IsDir\<close> of one of the entries it returns.
  An entry that is listed as a directory and cannot be read is an \<open>UnreadableFolder\<close>.
\<close>

fun ReadDir :: "ftree \<Rightarrow> string \<Rightarrow> error + (string \<times> ftree) list" where
  "ReadDir (Folder files) rootPath = Inr files"
| "ReadDir RegularFile rootPath = Inl (PathError ''readdirent'' rootPath ''not a directory'')"
| "ReadDir (UnreadableFolder err) rootPath = Inl err"
| "ReadDir (NoEntry err) rootPath = Inl err"

fun IsDir :: "ftree \<Rightarrow> bool" where
  "IsDir (Folder files) = True"
| "IsDir (UnreadableFolder err) = True"
| "IsDir RegularFile = False"
| "IsDir (NoEntry err) = False"

text \<open>
  \<open>buildTree\<close>, with the loop over the entries as \<open>buildChildren\<close> (its last argument is
  \<open>node.Children\<close> so far). The first equation is the call of \<open>os.ReadDir\<close> that
  succeeds, the second the one that fails.
\<close>

fun buildTree :: "ftree \<Rightarrow> string \<Rightarrow> error + TreeNode"
  and buildChildren :: "(string \<times> ftree) list \<Rightarrow> string \<Rightarrow> TreeNode list \<Rightarrow> error + TreeNode list"
where
  "buildTree (Folder files) rootPath =
     (case buildChildren files rootPath [] of
        Inl err \<Rightarrow> Inl err
      | Inr children \<Rightarrow> Inr (TreeNode rootPath children))"
| "buildTree t rootPath =
     (case ReadDir t rootPath of
        Inl err \<Rightarrow> Inl err
      | Inr files \<Rightarrow> Inr (TreeNode rootPath []))"
| "buildChildren [] rootPath children = Inr children"
| "buildChildren ((name, t) # files) rootPath children =
     (if IsDir t then
        (if name = ''__MACOSX'' then buildChildren files rootPath children
         else (case buildTree t (Join rootPath name) of
                 Inl err \<Rightarrow> Inl err
               | Inr childNode \<Rightarrow> buildChildren files rootPath (children @ [childNode])))
      else buildChildren files rootPath children)"

section \<open>The file system that extraction writes to\<close>

text \<open>
  Extraction creates directories, writes files, reads back the archives it has written
  and removes them. The file system is a working directory and a table from resolved
  paths (the names from the root down) to what is there; the first entry of the table
  for a path counts. Permissions, links and other processes are not modelled. A file
  holds bytes; \<open>archives\<close> says how bytes read as a zip archive (\<open>None\<close>: they do not).
\<close>

datatype node = DirNode | FileNode string

text \<open>
  What opening and reading an entry of an archive gives: all its bytes; an error from
  \<open>file.Open\<close>; or some bytes and then an error.
\<close>

datatype source = Readable string | OpenFails error | ReadFails string error

record zipFile =
  fileName :: string
  fileModeDir :: bool
  fileData :: source

record world =
  cwd :: "string list"
  table :: "(string list \<times> node) list"
  archives :: "string \<Rightarrow> zipFile list option"

text \<open>How the operating system resolves a path: from the root or the working directory,
  element by element.\<close>

fun applyElems :: "string list \<Rightarrow> string list \<Rightarrow> string list" where
  "applyElems st [] = st"
| "applyElems st (e # es) =
     (if e = [] \<or> e = ''.'' then applyElems st es
      else if e = ''..'' then applyElems (butlast st) es
      else applyElems (st @ [e]) es)"

definition resolve :: "string list \<Rightarrow> string \<Rightarrow> string list" where
  "resolve wd path =
     applyElems (if path \<noteq> [] \<and> hd path = Separator then [] else wd) (splitSep path)"

definition lookup :: "world \<Rightarrow> string list \<Rightarrow> node option" where
  "lookup w p = (if p = [] then Some DirNode else map_of (table w) p)"

text \<open>Writing what is at a resolved path, and removing it.\<close>

definition store :: "world \<Rightarrow> string list \<Rightarrow> node \<Rightarrow> world" where
  "store w p n = w\<lparr>table := (p, n) # filter (\<lambda>(q, m). q \<noteq> p) (table w)\<rparr>"

definition erase :: "world \<Rightarrow> string list \<Rightarrow> world" where
  "erase w p = w\<lparr>table := filter (\<lambda>(q, m). q \<noteq> p) (table w)\<rparr>"

text \<open>The directories on the way down to a resolved path, the path itself last.\<close>

fun dirsAlong :: "string list \<Rightarrow> string list \<Rightarrow> string list list" where
  "dirsAlong upper [] = []"
| "dirsAlong upper (e # es) = (upper @ [e]) # dirsAlong (upper @ [e]) es"

definition isFile :: "world \<Rightarrow> string list \<Rightarrow> bool" where
  "isFile w p = (case lookup w p of Some (FileNode bytes) \<Rightarrow> True | _ \<Rightarrow> False)"

definition isDir :: "world \<Rightarrow> string list \<Rightarrow> bool" where
  "isDir w p = (lookup w p = Some DirNode)"

text \<open>\<open>os.MkdirAll\<close>: the directory and every missing parent; an error when the path is
  empty or a file is in the way.\<close>

definition MkdirAll :: "world \<Rightarrow> string \<Rightarrow> error + world" where
  "MkdirAll w path =
     (if path = [] then Inl (PathError ''mkdir'' path ''no such file or directory'')
      else let p = resolve (cwd w) path
           in if list_ex (isFile w) (dirsAlong [] p)
              then Inl (PathError ''mkdir'' path ''not a directory'')
              else Inr (w\<lparr>table :=
                     map (\<lambda>q. (q, DirNode)) (filter (\<lambda>q. lookup w q = None) (dirsAlong [] p)) @ table w\<rparr>))"

text \<open>\<open>os.OpenFile\<close> with \<open>O_WRONLY|O_CREATE|O_TRUNC\<close>: the file is there and empty.\<close>

definition OpenFile :: "world \<Rightarrow> string \<Rightarrow> error + world" where
  "OpenFile w path =
     (if path = [] then Inl (PathError ''open'' path ''no such file or directory'')
      else let p = resolve (cwd w) path
           in if isDir w p then Inl (PathError ''open'' path ''is a directory'')
              else if \<not> isDir w (butlast p)
              then Inl (PathError ''open'' path ''no such file or directory'')
              else Inr (store w p (FileNode [])))"

text \<open>\<open>file.Open\<close> of an archive entry, and \<open>io.Copy\<close> from it to the file just opened.\<close>

fun fileOpen :: "zipFile \<Rightarrow> error + source" where
  "fileOpen f = (case fileData f of OpenFails err \<Rightarrow> Inl err | src \<Rightarrow> Inr src)"

fun Copy :: "world \<Rightarrow> string \<Rightarrow> source \<Rightarrow> world \<times> error option" where
  "Copy w path (Readable bytes) = (store w (resolve (cwd w) path) (FileNode bytes), None)"
| "Copy w path (ReadFails bytes err) = (store w (resolve (cwd w) path) (FileNode bytes), Some err)"
| "Copy w path (OpenFails err) = (w, Some err)"

text \<open>\<open>os.Remove\<close>: a file, or a directory with nothing in it.\<close>

definition hasChildren :: "world \<Rightarrow> string list \<Rightarrow> bool" where
  "hasChildren w p =
     list_ex (\<lambda>q. length p < length q \<and> take (length p) q = p \<and> lookup w q \<noteq> None)
       (map fst (table w))"

definition Remove :: "world \<Rightarrow> string \<Rightarrow> error + world" where
  "Remove w path =
     (let p = resolve (cwd w) path
      in if path = [] \<or> p = [] \<or> lookup w p = None
         then Inl (PathError ''remove'' path ''no such file or directory'')
         else if isDir w p \<and> hasChildren w p
         then Inl (PathError ''remove'' path ''directory not empty'')
         else Inr (erase w p))"

text \<open>\<open>zip.OpenReader\<close>: the entries of the archive that the file at the path holds.\<close>

definition OpenReader :: "world \<Rightarrow> string \<Rightarrow> error + zipFile list" where
  "OpenReader w path =
     (if path = [] then Inl (PathError ''open'' path ''no such file or directory'')
      else (case lookup w (resolve (cwd w) path) of
              None \<Rightarrow> Inl (PathError ''open'' path ''no such file or directory'')
            | Some DirNode \<Rightarrow> Inl (PathError ''read'' path ''is a directory'')
            | Some (FileNode bytes) \<Rightarrow>
                (case archives w bytes of
                   None \<Rightarrow> Inl ZipFormatError
                 | Some reader \<Rightarrow> Inr reader)))"

section \<open>Extraction\<close>

text \<open>\<open>file.FileInfo().IsDir()\<close>: the mode of a zip entry has the directory bit when its
  attributes say so, and always when its name ends in a slash.\<close>

definition entryIsDir :: "zipFile \<Rightarrow> bool" where
  "entryIsDir f = (fileModeDir f \<or> (fileName f \<noteq> [] \<and> last (fileName f) = Separator))"

text \<open>
  \<open>extractZipFiles\<close> calls itself on every archive it extracts, and an archive may hold a
  copy of itself: the recursion is bounded by a number of nested calls still allowed, and
  \<open>None\<close> is a run that needs more. \<open>extractFiles\<close> is the loop over \<open>reader.File\<close>.
  The result is the file system left behind and the error returned.
\<close>

fun extractZipFiles :: "nat \<Rightarrow> world \<Rightarrow> string \<Rightarrow> string \<Rightarrow> (world \<times> error option) option"
  and extractFiles :: "nat \<Rightarrow> world \<Rightarrow> string \<Rightarrow> zipFile list \<Rightarrow> (world \<times> error option) option"
where
  "extractZipFiles 0 w zipFilePath extractPath = None"
| "extractZipFiles (Suc n) w zipFilePath extractPath =
     (case MkdirAll w extractPath of
        Inl err \<Rightarrow> Some (w, Some err)
      | Inr w1 \<Rightarrow>
          (case OpenReader w1 zipFilePath of
             Inl err \<Rightarrow> Some (w1, Some err)
           | Inr reader \<Rightarrow> extractFiles n w1 extractPath reader))"
| "extractFiles n w extractPath [] = Some (w, None)"
| "extractFiles n w extractPath (f # rest) =
     (if HasPrefix (fileName f) ''__MACOSX/'' then extractFiles n w extractPath rest
      else
        let path = Join extractPath (fileName f)
        in if \<not> HasPrefix (Clean path) (Clean extractPath @ [Separator])
           then Some (w, Some (IllegalFilePath (fileName f)))
           else if entryIsDir f then
             (case MkdirAll w path of
                Inl err \<Rightarrow> Some (w, Some err)
              | Inr w1 \<Rightarrow> extractFiles n w1 extractPath rest)
           else
             (case MkdirAll w (Dir path) of
                Inl err \<Rightarrow> Some (w, Some err)
              | Inr w1 \<Rightarrow>
                  (case fileOpen f of
                     Inl err \<Rightarrow> Some (w1, Some err)
                   | Inr srcFile \<Rightarrow>
                       (case OpenFile w1 path of
                          Inl err \<Rightarrow> Some (w1, Some err)
                        | Inr w2 \<Rightarrow>
                            (case Copy w2 path srcFile of
                               (w3, Some err) \<Rightarrow> Some (w3, Some err)
                             | (w3, None) \<Rightarrow>
                                 if HasSuffix (fileName f) ''.zip'' then
                                   (case extractZipFiles n w3 path (Dir path) of
                                      None \<Rightarrow> None
                                    | Some (w4, Some err) \<Rightarrow> Some (w4, Some err)
                                    | Some (w4, None) \<Rightarrow>
                                        (case Remove w4 path of
                                           Inl err \<Rightarrow> Some (w4, Some err)
                                         | Inr w5 \<Rightarrow> extractFiles n w5 extractPath rest))
                                 else extractFiles n w3 extractPath rest)))))"

section \<open>Notions for the claims about the upload\<close>

text \<open>The error of a failed \<open>os.Open\<close> or \<open>PutObject\<close> call, read off its event.\<close>

fun failure :: "event \<Rightarrow> error option" where
  "failure (OsOpen p r) = r"
| "failure (PutObject b k f r) = r"
| "failure ev = None"

definition failsOnlyLast :: "error option \<Rightarrow> event list \<Rightarrow> bool" where
  "failsOnlyLast r evs =
     ((\<forall>ev \<in> set (butlast evs). failure ev = None) \<and>
      (evs = [] \<or> failure (last evs) = None \<or> failure (last evs) = r))"

text \<open>A progress line whose two counters agree.\<close>

fun complete :: "event \<Rightarrow> bool" where
  "complete (PrintProgress u t p) = (u = t)"
| "complete ev = True"

definition allEqual :: "event list \<Rightarrow> bool" where
  "allEqual evs = (\<forall>ev \<in> set evs. complete ev)"

text \<open>The number of files a walk of the snapshot reaches, and the values \<open>uploadedFiles\<close>
  takes in a list of events.\<close>

fun countFiles :: "ftree \<Rightarrow> nat"
  and countFilesNames :: "(string \<times> ftree) list \<Rightarrow> nat" where
  "countFiles RegularFile = 1"
| "countFiles (Folder names) = countFilesNames names"
| "countFiles (UnreadableFolder err) = 0"
| "countFiles (NoEntry err) = 0"
| "countFilesNames [] = 0"
| "countFilesNames ((name, t) # rest) = countFiles t + countFilesNames rest"

fun uploadedHistory :: "event list \<Rightarrow> 64 word list" where
  "uploadedHistory [] = []"
| "uploadedHistory (Counters t u # evs) = u # uploadedHistory evs"
| "uploadedHistory (ev # evs) = uploadedHistory evs"

text \<open>
  Invariants of the walk: the counters seen so far stay below \<open>k\<close> with
  \<open>uploadedFiles\<close> never ahead and never going down, and between two files both counters
  equal the number of files done.
\<close>

fun withinCount :: "nat \<Rightarrow> event \<Rightarrow> bool" where
  "withinCount k (Counters t u) = (unat u \<le> unat t \<and> unat t \<le> k)"
| "withinCount k (PrintProgress u t p) = (0 < unat t \<and> unat t \<le> k)"
| "withinCount k ev = True"

definition counted :: "nat \<Rightarrow> event list \<Rightarrow> bool" where
  "counted k evs =
     ((\<forall>ev \<in> set evs. withinCount k ev) \<and> sorted (map unat (uploadedHistory evs)))"

definition settled :: "nat \<Rightarrow> 'c upload \<Rightarrow> bool" where
  "settled k s = (totalFiles s = of_nat k \<and> uploadedFiles s = of_nat k \<and> counted k (events s))"

text \<open>An \<open>os.Open\<close> event directly after a write that put \<open>totalFiles\<close> one ahead.\<close>

fun adjacentOK :: "event option \<Rightarrow> event \<Rightarrow> bool" where
  "adjacentOK (Some (Counters t u)) (OsOpen p r) = (t = u + 1)"
| "adjacentOK prev (OsOpen p r) = False"
| "adjacentOK prev ev = True"

fun announcedFrom :: "event option \<Rightarrow> event list \<Rightarrow> bool" where
  "announcedFrom prev [] = True"
| "announcedFrom prev (ev # evs) = (adjacentOK prev ev \<and> announcedFrom (Some ev) evs)"

text \<open>Sample inputs: every file opens; the client counts its calls and refuses call \<open>k\<close>.\<close>

definition openAlways :: "string \<Rightarrow> error + string" where
  "openAlways path = Inr ''data''"

definition putFailingAt :: "nat \<Rightarrow> nat putObject" where
  "putFailingAt k c bucketName key body =
     (Suc c, if Suc c = k then Some (ServiceError ''AccessDenied'') else None)"

definition sampleTree :: ftree where
  "sampleTree =
     Folder [(''a.txt'', RegularFile),
             (''sub'', Folder [(''f.txt'', RegularFile), (''g.txt'', RegularFile)])]"

section \<open>Notions for the claims about the tree and the extraction\<close>


definition subdirs :: "(string \<times> ftree) list \<Rightarrow> (string \<times> ftree) list" where
  "subdirs files = filter (\<lambda>(name, t). IsDir t \<and> name \<noteq> ''__MACOSX'') files"

fun listable :: "ftree \<Rightarrow> bool"
  and listableNames :: "(string \<times> ftree) list \<Rightarrow> bool" where
  "listable (Folder files) = listableNames files"
| "listable t = False"
| "listableNames [] = True"
| "listableNames ((name, t) # files) =
     ((if IsDir t \<and> name \<noteq> ''__MACOSX'' then listable t else True) \<and> listableNames files)"

fun expectedTree :: "ftree \<Rightarrow> string \<Rightarrow> TreeNode"
  and expectedChildren :: "(string \<times> ftree) list \<Rightarrow> string \<Rightarrow> TreeNode list" where
  "expectedTree (Folder files) rootPath = TreeNode rootPath (expectedChildren files rootPath)"
| "expectedTree t rootPath = TreeNode rootPath []"
| "expectedChildren [] rootPath = []"
| "expectedChildren ((name, t) # files) rootPath =
     (if IsDir t \<and> name \<noteq> ''__MACOSX''
      then expectedTree t (Join rootPath name) # expectedChildren files rootPath
      else expectedChildren files rootPath)"

text \<open>Sample archives: \<open>A\<close> holds \<open>inner.zip\<close> with the bytes \<open>Z1\<close>; \<open>Z1\<close> holds \<open>b.zip\<close>
  and an entry that leaves the root; \<open>Z2\<close> (the bytes of \<open>b.zip\<close>) holds another
  \<open>inner.zip\<close>, the empty archive \<open>Z3\<close>; \<open>S\<close> holds an entry under \<open>__MACOSX/\<close> and a
  file; \<open>B\<close> holds the empty archive as \<open>ok.zip\<close>; \<open>T\<close> holds one entry named \<open>../x\<close>.
  The sample directory has sub-directories \<open>a\<close> (holding \<open>b\<close>) and \<open>c\<close>, a file, and a
  directory \<open>__MACOSX\<close> that cannot be read.\<close>

definition entry :: "string \<Rightarrow> string \<Rightarrow> zipFile" where
  "entry name bytes = \<lparr>fileName = name, fileModeDir = False, fileData = Readable bytes\<rparr>"

definition sampleArchives :: "string \<Rightarrow> zipFile list option" where
  "sampleArchives =
     map_of [(''A'', [entry ''inner.zip'' ''Z1'']),
             (''Z1'', [entry ''b.zip'' ''Z2'', entry ''../x'' ''evil'']),
             (''Z2'', [entry ''inner.zip'' ''Z3'']),
             (''Z3'', []),
             (''B'', [entry ''ok.zip'' ''Z3'']),
             (''S'', [entry ''__MACOSX/../../etc/passwd'' ''pw'', entry ''ok.txt'' ''hello'']),
             (''T'', [entry ''../x'' ''evil''])]"

definition sampleWorld :: world where
  "sampleWorld =
     \<lparr>cwd = [''home'', ''u''],
      table = [([''a.zip''], FileNode ''A''), ([''s.zip''], FileNode ''S''),
               ([''home''], DirNode), ([''home'', ''u''], DirNode),
               ([''home'', ''u'', ''t.zip''], FileNode ''T'')],
      archives = sampleArchives\<rparr>"

definition sampleDirs :: ftree where
  "sampleDirs =
     Folder [(''a'', Folder [(''b'', Folder [])]),
             (''__MACOSX'', UnreadableFolder (PathError ''open'' ''/r/__MACOSX'' ''permission denied'')),
             (''notes.txt'', RegularFile),
             (''c'', Folder [])]"

section \<open>Notions for the containment check\<close>

text \<open>
  Where a path leads. \<open>within wd root path\<close>: resolved from the working directory \<open>wd\<close>,
  \<open>path\<close> lies strictly below \<open>root\<close>. The other notions describe the output of
  \<open>filepath.Clean\<close>: its elements are \<open>..\<close> elements followed by real ones (\<open>normal\<close>), none
  holds a separator, a rooted path has no \<open>..\<close> (\<open>tidy\<close>), and \<open>render\<close> writes them out.
\<close>

definition properPrefix :: "'a list \<Rightarrow> 'a list \<Rightarrow> bool" where
  "properPrefix xs ys = (length xs < length ys \<and> take (length xs) ys = xs)"

definition within :: "string list \<Rightarrow> string \<Rightarrow> string \<Rightarrow> bool" where
  "within wd root path = properPrefix (resolve wd root) (resolve wd path)"

definition real :: "string \<Rightarrow> bool" where
  "real e = (e \<noteq> [] \<and> e \<noteq> ''.'' \<and> e \<noteq> ''..'')"

fun normal :: "string list \<Rightarrow> bool" where
  "normal [] = True"
| "normal (e # es) = (if e = ''..'' then normal es else real e \<and> (\<forall>x \<in> set es. real x))"

definition tidy :: "bool \<Rightarrow> string list \<Rightarrow> bool" where
  "tidy rooted acc =
     (normal acc \<and> (\<forall>e \<in> set acc. Separator \<notin> set e) \<and> (rooted \<longrightarrow> (\<forall>e \<in> set acc. real e)))"

definition render :: "bool \<Rightarrow> string list \<Rightarrow> string" where
  "render rooted out =
     (if rooted then Separator # joinSep out else if out = [] then ''.'' else joinSep out)"

text \<open>
  What extraction may touch. \<open>fileAt w q\<close> is the content of the regular file at the
  resolved path \<open>q\<close>, if one is there. \<open>sameOutside R w w'\<close>: the working directory is the
  same and every path that is not strictly below \<open>R\<close> holds the same file, or no file, in
  both: between \<open>w\<close> and \<open>w'\<close> no file outside \<open>R\<close> was created, written or removed.
\<close>

definition fileAt :: "world \<Rightarrow> string list \<Rightarrow> string option" where
  "fileAt w q = (case lookup w q of Some (FileNode bytes) \<Rightarrow> Some bytes | _ \<Rightarrow> None)"

definition sameOutside :: "string list \<Rightarrow> world \<Rightarrow> world \<Rightarrow> bool" where
  "sameOutside R w w' =
     (cwd w' = cwd w \<and> (\<forall>q. \<not> properPrefix R q \<longrightarrow> fileAt w' q = fileAt w q))"
section \<open>Notions for the claims about nested archives and the sentinel\<close>

text \<open>
  The elements of an entry name, without the empty one that a closing slash leaves, and
  the names that are plain relative paths: at least one element, none of them empty,
  \<open>.\<close> or \<open>..\<close> (so the name is not rooted and has no doubled slash).
\<close>

definition nameElems :: "string \<Rightarrow> string list" where
  "nameElems name = (let es = splitSep name in if last es = [] then butlast es else es)"

definition plainName :: "string \<Rightarrow> bool" where
  "plainName name = (nameElems name \<noteq> [] \<and> (\<forall>e \<in> set (nameElems name). real e))"

text \<open>
  The archives a run can meet. \<open>archivesWithin A S ok\<close>: \<open>S\<close> is a set of archive contents
  closed under nesting; in every archive of \<open>S\<close>, every entry that is not under
  \<open>__MACOSX/\<close> has a name satisfying \<open>ok\<close>, and if its name ends in \<open>.zip\<close> its bytes are
  in \<open>S\<close> again.
\<close>

definition nestedEntry :: "string set \<Rightarrow> (string \<Rightarrow> bool) \<Rightarrow> zipFile \<Rightarrow> bool" where
  "nestedEntry S ok f =
     (\<not> HasPrefix (fileName f) ''__MACOSX/'' \<longrightarrow>
        ok (fileName f) \<and>
        (HasSuffix (fileName f) ''.zip'' \<longrightarrow> (\<forall>c. fileData f = Readable c \<longrightarrow> c \<in> S)))"

definition archivesWithin :: "(string \<Rightarrow> zipFile list option) \<Rightarrow> string set \<Rightarrow> (string \<Rightarrow> bool) \<Rightarrow> bool" where
  "archivesWithin A S ok =
     (\<forall>c \<in> S. \<forall>reader. A c = Some reader \<longrightarrow> (\<forall>f \<in> set reader. nestedEntry S ok f))"

text \<open>
  \<open>missesPath wd p name\<close>: whatever the extraction directory, the destination of an entry
  of this name is not the resolved path \<open>p\<close>. \<open>sameFileAt p R v v'\<close>: between \<open>v\<close> and
  \<open>v'\<close> the file at \<open>p\<close> was not created, written or removed (the extraction directory \<open>R\<close>
  plays no part).
\<close>

definition missesPath :: "string list \<Rightarrow> string list \<Rightarrow> string \<Rightarrow> bool" where
  "missesPath wd p name = (\<forall>root. resolve wd (Join root name) \<noteq> p)"

definition sameFileAt :: "string list \<Rightarrow> string list \<Rightarrow> world \<Rightarrow> world \<Rightarrow> bool" where
  "sameFileAt p R v v' = (cwd v' = cwd v \<and> archives v' = archives v \<and> fileAt v' p = fileAt v p)"




text \<open>
  More sample archives. \<open>P\<close> holds an entry under \<open>__MACOSX/\<close>, a file and, in \<open>sub\<close>, the
  archive \<open>Q\<close>, which holds an entry under \<open>__MACOSX/\<close> and a file. \<open>N\<close> holds a file
  \<open>b.txt\<close> and then a directory entry of the same name, which cannot be created. \<open>M\<close>
  holds three entries that lead to a directory \<open>__MACOSX\<close> by names that do not start
  with \<open>__MACOSX/\<close>. The sample directory for the upload holds one file under
  \<open>__MACOSX\<close> and one beside it.
\<close>

definition nestedArchives :: "string \<Rightarrow> zipFile list option" where
  "nestedArchives =
     map_of [(''P'', [entry ''__MACOSX/._a.txt'' ''meta'', entry ''a.txt'' ''aa'',
                      entry ''sub/q.zip'' ''Q'']),
             (''Q'', [entry ''__MACOSX/._b.txt'' ''meta'', entry ''b.txt'' ''bb'']),
             (''N'', [entry ''b.txt'' ''bb'',
                      \<lparr>fileName = ''b.txt/'', fileModeDir = True, fileData = Readable []\<rparr>]),
             (''M'', [entry ''./__MACOSX/junk'' ''j'', entry ''/__MACOSX/l'' ''l'',
                      entry ''sub/__MACOSX/k'' ''k''])]"

definition nestedWorld :: world where
  "nestedWorld =
     \<lparr>cwd = [''home'', ''u''],
      table = [([''p.zip''], FileNode ''P''), ([''m.zip''], FileNode ''M''),
               ([''home''], DirNode), ([''home'', ''u''], DirNode)],
      archives = nestedArchives\<rparr>"


section \<open>The walk and the upload: lemmas\<close>

lemma walk_rule_aux:
  "(\<forall>s path info err. P s \<longrightarrow> R (fst (walkFn s path info err)) (snd (walkFn s path info err)))
     \<Longrightarrow> (\<forall>s. R s None \<longrightarrow> P s) \<Longrightarrow> (\<forall>s. P s \<longrightarrow> R s None) \<Longrightarrow> P s
     \<Longrightarrow> R (fst (walk t path walkFn s)) (snd (walk t path walkFn s))"
  "(\<forall>s path info err. P s \<longrightarrow> R (fst (walkFn s path info err)) (snd (walkFn s path info err)))
     \<Longrightarrow> (\<forall>s. R s None \<longrightarrow> P s) \<Longrightarrow> (\<forall>s. P s \<longrightarrow> R s None) \<Longrightarrow> P s
     \<Longrightarrow> R (fst (walkNames ns path walkFn s)) (snd (walkNames ns path walkFn s))"
proof (induction t path walkFn s and ns path walkFn s rule: walk_walkNames.induct)
  case (4 names path walkFn s)
  obtain s1 r1 where w: "walkFn s path (Some True) None = (s1, r1)"
    by (cases "walkFn s path (Some True) None")
  from 4(2) 4(5) have "R (fst (walkFn s path (Some True) None)) (snd (walkFn s path (Some True) None))"
    by blast
  with w have r: "R s1 r1" by simp
  show ?case
  proof (cases r1)
    case None
    with r 4(3) have "P s1" by simp
    from 4(1) [OF w [symmetric] None 4(2) 4(3) 4(4) this] w None show ?thesis by simp
  next
    case (Some e)
    with r w show ?thesis by simp
  qed
next
  case (6 name t rest path walkFn s)
  obtain s1 r1 where w: "walk t (Join path name) walkFn s = (s1, r1)"
    by (cases "walk t (Join path name) walkFn s")
  from 6(1) [OF 6(3) 6(4) 6(5) 6(6)] w have r: "R s1 r1" by simp
  show ?case
  proof (cases r1)
    case None
    with r 6(4) have "P s1" by simp
    from 6(2) [OF w [symmetric] None 6(3) 6(4) 6(5) this] w None show ?thesis by simp
  next
    case (Some e)
    with r w show ?thesis by simp
  qed
next
  case (1 err path walkFn s) then show ?case by simp
next
  case (2 path walkFn s) then show ?case by simp
next
  case (3 err path walkFn s) then show ?case by simp
next
  case (5 path walkFn s) then show ?case by simp
qed

lemma Walk_rule:
  assumes "\<And>s path info err. P s \<Longrightarrow> R (fst (walkFn s path info err)) (snd (walkFn s path info err))"
    and "\<And>s. R s None \<Longrightarrow> P s" and "\<And>s. P s \<Longrightarrow> R s None" and "P s"
  shows "R (fst (Walk t path walkFn s)) (snd (Walk t path walkFn s))"
  unfolding Walk_def by (rule walk_rule_aux(1) [where P = P]) (use assms in blast)+

lemma uploadWalkFn_balanced:
  fixes s :: "'c upload"
  assumes "uploadedFiles s = totalFiles s \<and> allEqual (events s)"
  shows "allEqual (events (fst (uploadWalkFn osOpen put b d pre s path info err))) \<and>
         (snd (uploadWalkFn osOpen put b d pre s path info err) = None \<longrightarrow>
            uploadedFiles (fst (uploadWalkFn osOpen put b d pre s path info err)) =
            totalFiles (fst (uploadWalkFn osOpen put b d pre s path info err)))"
  using assms
  by (auto simp: uploadWalkFn_def uploadFileToS3_def printProgress_def allEqual_def Let_def
           split: option.splits sum.splits prod.splits)

lemma Walk_balanced:
  fixes s :: "'c upload"
  assumes "uploadedFiles s = totalFiles s \<and> allEqual (events s)"
  shows "allEqual (events (fst (Walk t path (uploadWalkFn osOpen put b d pre) s)))"
proof -
  let ?R = "\<lambda>s r. allEqual (events s) \<and> (r = None \<longrightarrow> uploadedFiles s = totalFiles s)"
  have "?R (fst (Walk t path (uploadWalkFn osOpen put b d pre) s))
           (snd (Walk t path (uploadWalkFn osOpen put b d pre) s))"
  proof (rule Walk_rule [where P = "\<lambda>s. uploadedFiles s = totalFiles s \<and> allEqual (events s)"])
    fix s :: "'c upload" and path info err
    assume "uploadedFiles s = totalFiles s \<and> allEqual (events s)"
    then show "?R (fst (uploadWalkFn osOpen put b d pre s path info err))
                  (snd (uploadWalkFn osOpen put b d pre s path info err))"
      by (rule uploadWalkFn_balanced)
  qed (use assms in simp_all)
  then show ?thesis by simp
qed


lemma failsOnlyLast_None: "failsOnlyLast None evs = (\<forall>ev \<in> set evs. failure ev = None)"
proof (cases evs rule: rev_cases)
  case Nil
  then show ?thesis by (simp add: failsOnlyLast_def)
next
  case (snoc xs x)
  then show ?thesis by (auto simp: failsOnlyLast_def)
qed

lemma failsOnlyLast_all: "\<forall>ev \<in> set xs. failure ev = None \<Longrightarrow> failsOnlyLast r xs"
  by (cases xs rule: rev_cases) (auto simp: failsOnlyLast_def)

lemma failsOnlyLast_snoc2:
  "\<forall>ev \<in> set xs. failure ev = None \<Longrightarrow> failure a = None \<Longrightarrow> failure x = r
     \<Longrightarrow> failsOnlyLast r (xs @ [a, x])"
  by (simp add: failsOnlyLast_def butlast_append)

lemma failsOnlyLast_snoc3:
  "\<forall>ev \<in> set xs. failure ev = None \<Longrightarrow> failure a = None \<Longrightarrow> failure b = None \<Longrightarrow> failure x = r
     \<Longrightarrow> failsOnlyLast r (xs @ [a, b, x])"
  by (simp add: failsOnlyLast_def butlast_append)

lemma uploadWalkFn_failsOnlyLast:
  fixes s :: "'c upload"
  assumes "\<forall>ev \<in> set (events s). failure ev = None"
  shows "failsOnlyLast (snd (uploadWalkFn osOpen put b d pre s path info err))
           (events (fst (uploadWalkFn osOpen put b d pre s path info err)))"
proof (cases "err = None \<and> info \<noteq> Some True")
  case False
  then show ?thesis
    using assms by (auto simp: uploadWalkFn_def intro: failsOnlyLast_all split: option.splits)
next
  case True
  show ?thesis
  proof (cases "osOpen path")
    case (Inl e)
    with True assms show ?thesis
      by (simp add: uploadWalkFn_def uploadFileToS3_def Let_def failsOnlyLast_snoc2)
  next
    case (Inr body)
    obtain c1 res where p: "put (s3Client s) b (Join pre (TrimPrefix path d)) body = (c1, res)"
      by (cases "put (s3Client s) b (Join pre (TrimPrefix path d)) body")
    show ?thesis
    proof (cases res)
      case None
      with True Inr p assms show ?thesis
        by (simp add: uploadWalkFn_def uploadFileToS3_def Let_def printProgress_def failsOnlyLast_None)
    next
      case (Some e)
      with True Inr p assms show ?thesis
        by (simp add: uploadWalkFn_def uploadFileToS3_def Let_def failsOnlyLast_snoc3)
    qed
  qed
qed

lemma Walk_failsOnlyLast:
  fixes s :: "'c upload"
  assumes "\<forall>ev \<in> set (events s). failure ev = None"
  shows "failsOnlyLast (snd (Walk t path (uploadWalkFn osOpen put b d pre) s))
           (events (fst (Walk t path (uploadWalkFn osOpen put b d pre) s)))"
proof (rule Walk_rule [where P = "\<lambda>s. \<forall>ev \<in> set (events s). failure ev = None"
        and R = "\<lambda>s r. failsOnlyLast r (events s)"])
  fix s :: "'c upload" and path info err
  assume "\<forall>ev \<in> set (events s). failure ev = None"
  then show "failsOnlyLast (snd (uploadWalkFn osOpen put b d pre s path info err))
           (events (fst (uploadWalkFn osOpen put b d pre s path info err)))"
    by (rule uploadWalkFn_failsOnlyLast)
qed (use assms in \<open>simp_all add: failsOnlyLast_None\<close>)

lemma failsOnlyLast_nth:
  assumes "failsOnlyLast r evs" and "i < length evs" and "failure (evs ! i) = Some e"
  shows "Suc i = length evs \<and> r = Some e"
proof (cases evs rule: rev_cases)
  case Nil
  with assms show ?thesis by simp
next
  case (snoc xs x)
  show ?thesis
  proof (cases "i < length xs")
    case True
    with snoc have "evs ! i \<in> set (butlast evs)" by (simp add: nth_append)
    with assms(1) assms(3) show ?thesis by (auto simp: failsOnlyLast_def)
  next
    case False
    with snoc assms(2) have i: "i = length xs" by simp
    with snoc assms(3) have "failure (last evs) = Some e" by simp
    with assms(1) snoc i show ?thesis by (auto simp: failsOnlyLast_def)
  qed
qed


lemma uploadedHistory_append:
  "uploadedHistory (xs @ ys) = uploadedHistory xs @ uploadedHistory ys"
  by (induction xs rule: uploadedHistory.induct) simp_all

lemma uploadedHistory_set:
  "u \<in> set (uploadedHistory evs) \<Longrightarrow> \<exists>t. Counters t u \<in> set evs"
  by (induction evs rule: uploadedHistory.induct) auto

lemma withinCount_mono: "withinCount k ev \<Longrightarrow> k \<le> k' \<Longrightarrow> withinCount k' ev"
  by (cases ev) simp_all

lemma counted_mono: "counted k evs \<Longrightarrow> k \<le> k' \<Longrightarrow> counted k' evs"
  unfolding counted_def by (blast intro: withinCount_mono)

lemma counted_history_le:
  assumes "counted k evs" and "u \<in> set (uploadedHistory evs)"
  shows "unat u \<le> k"
proof -
  from assms(2) obtain t where "Counters t u \<in> set evs" by (blast dest: uploadedHistory_set)
  with assms(1) have "withinCount k (Counters t u)" unfolding counted_def by blast
  then show ?thesis by simp
qed

lemma unat_of_nat64: "k < 2 ^ 64 \<Longrightarrow> unat (of_nat k :: 64 word) = k"
  by (simp add: unat_of_nat)

lemma unat_succ64: "k < 2 ^ 64 - 1 \<Longrightarrow> unat (of_nat k + 1 :: 64 word) = Suc k"
proof -
  assume "k < 2 ^ 64 - 1"
  then have "Suc k < 2 ^ 64" by simp
  then have "unat (of_nat (Suc k) :: 64 word) = Suc k" by (rule unat_of_nat64)
  then show ?thesis by (simp add: add.commute)
qed

lemma counted_file_failed:
  assumes "counted k evs" and "Suc k < 2 ^ 64"
    and "\<forall>ev \<in> set xs. (\<exists>p r. ev = OsOpen p r) \<or> (\<exists>b key f r. ev = PutObject b key f r)"
  shows "counted (Suc k) (evs @ Counters (of_nat k + 1) (of_nat k) # xs)"
proof -
  from assms(2) have k: "unat (of_nat k :: 64 word) = k" "unat (of_nat k + 1 :: 64 word) = Suc k"
    by (simp_all add: unat_of_nat64 unat_succ64)
  have h: "uploadedHistory xs = []"
    using assms(3) by (induction xs rule: uploadedHistory.induct) auto
  have x: "\<forall>ev \<in> set xs. withinCount (Suc k) ev"
    using assms(3) by auto
  have "sorted (map unat (uploadedHistory evs) @ [k])"
    using assms(1) counted_history_le [OF assms(1)]
    by (auto simp: sorted_append counted_def)
  moreover from assms(1) have "counted (Suc k) evs" by (rule counted_mono) simp
  ultimately show ?thesis
    using k h x by (auto simp: counted_def uploadedHistory_append)
qed

lemma counted_file_done:
  assumes "counted k evs" and "Suc k < 2 ^ 64"
  shows "counted (Suc k)
           (evs @ [Counters (of_nat k + 1) (of_nat k), OsOpen path None, PutObject b key f None,
                   Counters (of_nat k + 1) (of_nat k + 1),
                   PrintProgress (of_nat k + 1) (of_nat k + 1) path])"
proof -
  from assms(2) have k: "unat (of_nat k :: 64 word) = k" "unat (of_nat k + 1 :: 64 word) = Suc k"
    by (simp_all add: unat_of_nat64 unat_succ64)
  have "sorted (map unat (uploadedHistory evs) @ [k, Suc k])"
    using assms(1) counted_history_le [OF assms(1)]
    by (auto simp: sorted_append counted_def le_SucI)
  moreover from assms(1) have "counted (Suc k) evs" by (rule counted_mono) simp
  ultimately show ?thesis
    using k by (auto simp: counted_def uploadedHistory_append)
qed

lemma uploadWalkFn_file:
  fixes s :: "'c upload"
  assumes "settled k s" and "Suc k < 2 ^ 64"
  shows "counted (Suc k) (events (fst (uploadWalkFn osOpen put b d pre s path (Some False) None))) \<and>
         (snd (uploadWalkFn osOpen put b d pre s path (Some False) None) = None \<longrightarrow>
            settled (Suc k) (fst (uploadWalkFn osOpen put b d pre s path (Some False) None)))"
proof (cases "osOpen path")
  case (Inl e)
  from assms have "counted (Suc k) (events s @ Counters (of_nat k + 1) (of_nat k) # [OsOpen path (Some e)])"
    by (intro counted_file_failed) (simp_all add: settled_def)
  with Inl assms show ?thesis
    by (simp add: uploadWalkFn_def uploadFileToS3_def Let_def settled_def)
next
  case (Inr body)
  obtain c1 res where p: "put (s3Client s) b (Join pre (TrimPrefix path d)) body = (c1, res)"
    by (cases "put (s3Client s) b (Join pre (TrimPrefix path d)) body")
  show ?thesis
  proof (cases res)
    case None
    from assms have "counted (Suc k) (events s @ [Counters (of_nat k + 1) (of_nat k),
        OsOpen path None, PutObject b (Join pre (TrimPrefix path d)) body None,
        Counters (of_nat k + 1) (of_nat k + 1), PrintProgress (of_nat k + 1) (of_nat k + 1) path])"
      by (intro counted_file_done) (simp_all add: settled_def)
    with None Inr p assms show ?thesis
      by (simp add: uploadWalkFn_def uploadFileToS3_def Let_def settled_def printProgress_def add.commute)
  next
    case (Some e)
    from assms have "counted (Suc k) (events s @ Counters (of_nat k + 1) (of_nat k) #
        [OsOpen path None, PutObject b (Join pre (TrimPrefix path d)) body (Some e)])"
      by (intro counted_file_failed) (simp_all add: settled_def)
    with Some Inr p assms show ?thesis
      by (simp add: uploadWalkFn_def uploadFileToS3_def Let_def settled_def)
  qed
qed

lemma uploadWalkFn_skip:
  "uploadWalkFn osOpen put b d pre s path (Some True) None = (s, None)"
  "uploadWalkFn osOpen put b d pre s path info (Some e) = (s, Some e)"
  by (simp_all add: uploadWalkFn_def)

lemma walk_counted:
  fixes s :: "'c upload"
  shows "walkFn = uploadWalkFn osOpen put b d pre \<Longrightarrow> settled k s \<Longrightarrow> k + countFiles t < 2 ^ 64
     \<Longrightarrow> counted (k + countFiles t) (events (fst (walk t path walkFn s))) \<and>
         (snd (walk t path walkFn s) = None \<longrightarrow> settled (k + countFiles t) (fst (walk t path walkFn s)))"
    and "walkFn = uploadWalkFn osOpen put b d pre \<Longrightarrow> settled k s \<Longrightarrow> k + countFilesNames ns < 2 ^ 64
     \<Longrightarrow> counted (k + countFilesNames ns) (events (fst (walkNames ns path walkFn s))) \<and>
         (snd (walkNames ns path walkFn s) = None \<longrightarrow>
            settled (k + countFilesNames ns) (fst (walkNames ns path walkFn s)))"
proof (induction t path walkFn s and ns path walkFn s arbitrary: k and k rule: walk_walkNames.induct)
  case (1 err path walkFn s)
  then show ?case by (simp add: uploadWalkFn_skip settled_def)
next
  case (2 path walkFn s)
  with uploadWalkFn_file [of k s osOpen put b d pre path] show ?case by simp
next
  case (3 err path walkFn s)
  then show ?case by (simp add: uploadWalkFn_skip settled_def)
next
  case (4 names path walkFn s)
  from 4(2) have w: "walkFn s path (Some True) None = (s, None)" by (simp add: uploadWalkFn_skip)
  from 4(1) [OF w [symmetric] refl 4(2) 4(3)] 4(4) w show ?case by simp
next
  case (5 path walkFn s)
  then show ?case by (simp add: settled_def)
next
  case (6 name t rest path walkFn s)
  obtain s1 r1 where w: "walk t (Join path name) walkFn s = (s1, r1)"
    by (cases "walk t (Join path name) walkFn s")
  from 6(5) have b: "k + countFiles t < 2 ^ 64" by simp
  from 6(1) [OF 6(3) 6(4) b] w
  have h: "counted (k + countFiles t) (events s1)" "r1 = None \<longrightarrow> settled (k + countFiles t) s1"
    by simp_all
  show ?case
  proof (cases r1)
    case None
    with h have "settled (k + countFiles t) s1" by simp
    from 6(2) [OF w [symmetric] None 6(3) this] 6(5) w None show ?thesis
      by (simp add: add.assoc)
  next
    case (Some e)
    from h(1) have "counted (k + countFilesNames ((name, t) # rest)) (events s1)"
      by (rule counted_mono) simp
    with Some w show ?thesis by simp
  qed
qed

lemma sint_unat64: "unat (w :: 64 word) < 2 ^ 63 \<Longrightarrow> sint w = int (unat w)"
proof -
  assume a: "unat w < 2 ^ 63"
  have "int (unat w) < int (2 ^ 63)" using a by (simp only: of_nat_less_iff)
  then have u: "uint w < 2 ^ 63" by (simp only: of_nat_power of_nat_numeral of_nat_unat)
  have "(0::int) \<le> uint w" by simp
  then have "- (2 ^ 63) \<le> uint w" by (rule order_trans [rotated]) simp
  then have "signed_take_bit 63 (uint w) = uint w" using u
    by (rule signed_take_bit_int_eq_self)
  then show ?thesis by (simp add: sint_uint)
qed

lemma sorted_int_unat:
  "sorted (map unat xs) \<Longrightarrow> sorted (map (\<lambda>x. int (unat x)) xs)"
  for xs :: "64 word list"
  by (induction xs) (simp_all del: of_nat_unat)

lemma announcedFrom_append:
  "announcedFrom prev (xs @ ys) =
     (announcedFrom prev xs \<and> announcedFrom (if xs = [] then prev else Some (last xs)) ys)"
  by (induction xs arbitrary: prev) auto

lemma announcedFrom_nth:
  "announcedFrom prev evs \<Longrightarrow> i < length evs
     \<Longrightarrow> adjacentOK (if i = 0 then prev else Some (evs ! (i - 1))) (evs ! i)"
proof (induction evs arbitrary: prev i)
  case Nil
  then show ?case by simp
next
  case (Cons ev evs)
  show ?case
  proof (cases i)
    case 0
    with Cons.prems show ?thesis by simp
  next
    case (Suc j)
    with Cons.prems have "adjacentOK (if j = 0 then Some ev else Some (evs ! (j - 1))) (evs ! j)"
      by (intro Cons.IH) simp_all
    with Suc show ?thesis by (cases j) simp_all
  qed
qed

lemma adjacentOK_OsOpen:
  "adjacentOK prev (OsOpen p r) \<Longrightarrow> \<exists>t u. prev = Some (Counters t u) \<and> t = u + 1"
  by (cases "(prev, OsOpen p r)" rule: adjacentOK.cases) simp_all

lemma uploadWalkFn_announced:
  fixes s :: "'c upload"
  assumes "uploadedFiles s = totalFiles s \<and> announcedFrom None (events s)"
  shows "announcedFrom None (events (fst (uploadWalkFn osOpen put b d pre s path info err))) \<and>
         (snd (uploadWalkFn osOpen put b d pre s path info err) = None \<longrightarrow>
            uploadedFiles (fst (uploadWalkFn osOpen put b d pre s path info err)) =
            totalFiles (fst (uploadWalkFn osOpen put b d pre s path info err)))"
  using assms
  by (auto simp: uploadWalkFn_def uploadFileToS3_def printProgress_def Let_def announcedFrom_append
           split: option.splits sum.splits prod.splits)

lemma Walk_announced:
  fixes s :: "'c upload"
  assumes "uploadedFiles s = totalFiles s \<and> announcedFrom None (events s)"
  shows "announcedFrom None (events (fst (Walk t path (uploadWalkFn osOpen put b d pre) s)))"
proof -
  let ?R = "\<lambda>(s :: 'c upload) r. announcedFrom None (events s) \<and> (r = None \<longrightarrow> uploadedFiles s = totalFiles s)"
  have "?R (fst (Walk t path (uploadWalkFn osOpen put b d pre) s))
           (snd (Walk t path (uploadWalkFn osOpen put b d pre) s))"
  proof (rule Walk_rule [where P = "\<lambda>s. uploadedFiles s = totalFiles s \<and> announcedFrom None (events s)"])
    fix s :: "'c upload" and path info err
    assume "uploadedFiles s = totalFiles s \<and> announcedFrom None (events s)"
    then show "?R (fst (uploadWalkFn osOpen put b d pre s path info err))
                  (snd (uploadWalkFn osOpen put b d pre s path info err))"
      by (rule uploadWalkFn_announced)
  qed (use assms in simp_all)
  then show ?thesis by simp
qed
section \<open>Claims about the upload\<close>

lemmas upload_defs =
  uploadDirectoryToS3_def Walk_def uploadWalkFn_def uploadFileToS3_def printProgress_def
  errorLine_def TrimPrefix_def HasPrefix_def Join_def Clean_def Separator_def Let_def
  openAlways_def putFailingAt_def sampleTree_def

lemma sample_run_done:
  "uploadDirectoryToS3 openAlways (putFailingAt 0) 0 ''bkt'' sampleTree ''/tmp/x'' ''uploads/'' =
     \<lparr>totalFiles = 3, uploadedFiles = 3, s3Client = 3,
      events =
        [Counters 1 0, OsOpen ''/tmp/x/a.txt'' None,
         PutObject ''bkt'' ''uploads/a.txt'' ''data'' None, Counters 1 1,
         PrintProgress 1 1 ''/tmp/x/a.txt'',
         Counters 2 1, OsOpen ''/tmp/x/sub/f.txt'' None,
         PutObject ''bkt'' ''uploads/sub/f.txt'' ''data'' None, Counters 2 2,
         PrintProgress 2 2 ''/tmp/x/sub/f.txt'',
         Counters 3 2, OsOpen ''/tmp/x/sub/g.txt'' None,
         PutObject ''bkt'' ''uploads/sub/g.txt'' ''data'' None, Counters 3 3,
         PrintProgress 3 3 ''/tmp/x/sub/g.txt'',
         PrintDone ''/tmp/x'']\<rparr>"
  by (simp add: upload_defs)

lemma sample_run_failed:
  "uploadDirectoryToS3 openAlways (putFailingAt 2) 0 ''bkt'' sampleTree ''/tmp/x'' ''uploads/'' =
     \<lparr>totalFiles = 2, uploadedFiles = 1, s3Client = 2,
      events =
        [Counters 1 0, OsOpen ''/tmp/x/a.txt'' None,
         PutObject ''bkt'' ''uploads/a.txt'' ''data'' None, Counters 1 1,
         PrintProgress 1 1 ''/tmp/x/a.txt'',
         Counters 2 1, OsOpen ''/tmp/x/sub/f.txt'' None,
         PutObject ''bkt'' ''uploads/sub/f.txt'' ''data'' (Some (ServiceError ''AccessDenied'')),
         PrintError (errorLine ''/tmp/x'' (ServiceError ''AccessDenied''))]\<rparr>"
  by (simp add: upload_defs)

lemma countFiles_sample: "countFiles sampleTree = 3"
  by (simp add: sampleTree_def)

text \<open>
  Claim C10. Within one \<open>uploadDirectoryToS3\<close> call, every progress line is printed with
  \<open>uploadedFiles\<close> equal to \<open>totalFiles\<close> (so the ratio it reports is one, that is 100
  percent): the walk counts a file in \<open>totalFiles\<close> just before its upload and in
  \<open>uploadedFiles\<close> just after, and stops at a failed upload. With fewer than \<open>2^63\<close>
  files the common value is positive.
\<close>

theorem progress_always_complete:
  assumes "PrintProgress u t p \<in>
             set (events (uploadDirectoryToS3 osOpen put c bucketName tree directoryPath prefix))"
  shows "u = t \<and> (countFiles tree < 2 ^ 63 \<longrightarrow> 0 < sint t)"
proof -
  let ?s0 = "\<lparr>totalFiles = 0, uploadedFiles = 0, s3Client = c, events = []\<rparr>"
  let ?fn = "uploadWalkFn osOpen put bucketName directoryPath prefix"
  let ?w = "Walk tree directoryPath ?fn ?s0"
  from assms have in_walk: "PrintProgress u t p \<in> set (events (fst ?w))"
    by (auto simp: uploadDirectoryToS3_def split: prod.splits option.splits)
  have "allEqual (events (fst ?w))"
    by (rule Walk_balanced) (simp add: allEqual_def)
  with in_walk have eq: "u = t" by (auto simp: allEqual_def)
  have pos: "0 < sint t" if small: "countFiles tree < 2 ^ 63"
  proof -
    have "settled 0 ?s0" by (simp add: settled_def counted_def)
    moreover from small have "0 + countFiles tree < 2 ^ 64" by simp
    ultimately have "counted (0 + countFiles tree) (events (fst (walk tree directoryPath ?fn ?s0)))"
      by (intro conjunct1 [OF walk_counted(1)]) simp_all
    with in_walk have "withinCount (countFiles tree) (PrintProgress u t p)"
      unfolding counted_def Walk_def by (simp del: withinCount.simps)
    then have "0 < unat t \<and> unat t \<le> countFiles tree" by simp
    with small have "0 < unat t" "unat t < 2 ^ 63" by simp_all
    then have "0 < int (unat t)" "sint t = int (unat t)" by (simp_all only: of_nat_0_less_iff sint_unat64)
    then show ?thesis by (simp only:)
  qed
  from eq pos show ?thesis by blast
qed

theorem progress_always_complete_witness:
  "PrintProgress 1 1 ''/tmp/x/a.txt'' \<in>
     set (events (uploadDirectoryToS3 openAlways (putFailingAt 2) 0 ''bkt'' sampleTree
            ''/tmp/x'' ''uploads/'')) \<and>
   countFiles sampleTree < 2 ^ 63 \<and> 0 < sint (1 :: 64 word)"
  using progress_always_complete [of 1 1 "''/tmp/x/a.txt''" openAlways "putFailingAt 2" 0
      "''bkt''" sampleTree "''/tmp/x''" "''uploads/''"]
  by (simp add: sample_run_failed countFiles_sample)

text \<open>
  Claim C4, as stated: when the upload of the K-th file of the walk fails, no later file is
  attempted and the error reported for the directory names the failing file's path. The
  second half fails: the report is \<open>errorLine\<close> of the directory path and the bare error of
  the failed call, and a \<open>PutObject\<close> error does not carry the file's path. Here the one
  file \<open>/tmp/x/f.txt\<close> is refused by the client and the line printed does not contain
  its path.
\<close>

theorem upload_error_omits_file_path:
  "events (uploadDirectoryToS3 openAlways (putFailingAt 1) 0 ''bkt''
             (Folder [(''f.txt'', RegularFile)]) ''/tmp/x'' ''uploads/'') =
     [Counters 1 0, OsOpen ''/tmp/x/f.txt'' None,
      PutObject ''bkt'' ''uploads/f.txt'' ''data'' (Some (ServiceError ''AccessDenied'')),
      PrintError (errorLine ''/tmp/x'' (ServiceError ''AccessDenied''))] \<and>
   \<not> Contains (errorLine ''/tmp/x'' (ServiceError ''AccessDenied'')) ''/tmp/x/f.txt''"
  by (simp add: upload_defs)

text \<open>
  Claim C4, amended: once an \<open>os.Open\<close> or \<open>PutObject\<close> call of the walk fails, nothing
  more is attempted: the only event after the failed call is the one line
  \<open>Error uploading directory <directoryPath>: <error>\<close>, whose error is the error of that
  failed call, unchanged.
\<close>

theorem upload_stops_at_first_failure:
  assumes "evs = events (uploadDirectoryToS3 osOpen put c bucketName tree directoryPath prefix)"
    and "i < length evs" and "failure (evs ! i) = Some e"
  shows "drop (Suc i) evs = [PrintError (errorLine directoryPath e)]"
proof -
  let ?s0 = "\<lparr>totalFiles = 0, uploadedFiles = 0, s3Client = c, events = []\<rparr>"
  let ?w = "Walk tree directoryPath (uploadWalkFn osOpen put bucketName directoryPath prefix) ?s0"
  obtain st r where w: "?w = (st, r)" by (cases ?w)
  have f: "failsOnlyLast r (events st)"
    using Walk_failsOnlyLast [of ?s0 tree directoryPath osOpen put bucketName directoryPath prefix] w
    by simp
  have evs: "evs = events st @
      [case r of Some e \<Rightarrow> PrintError (errorLine directoryPath e) | None \<Rightarrow> PrintDone directoryPath]"
    using assms(1) w by (simp add: uploadDirectoryToS3_def split: option.splits)
  have "i < length (events st)"
  proof (rule ccontr)
    assume "\<not> i < length (events st)"
    with assms(2) evs have "i = length (events st)" by simp
    with evs assms(3) show False by (simp split: option.splits)
  qed
  moreover from this evs assms(3) have "failure (events st ! i) = Some e" by (simp add: nth_append)
  ultimately have "Suc i = length (events st) \<and> r = Some e"
    using failsOnlyLast_nth [OF f] by blast
  with evs show ?thesis by simp
qed

theorem upload_stops_at_first_failure_witness:
  "failure (events (uploadDirectoryToS3 openAlways (putFailingAt 2) 0 ''bkt'' sampleTree
                      ''/tmp/x'' ''uploads/'') ! 7) = Some (ServiceError ''AccessDenied'') \<and>
   drop 8 (events (uploadDirectoryToS3 openAlways (putFailingAt 2) 0 ''bkt'' sampleTree
                      ''/tmp/x'' ''uploads/'')) =
     [PrintError (errorLine ''/tmp/x'' (ServiceError ''AccessDenied''))]"
  using upload_stops_at_first_failure [OF refl, of 7 openAlways "putFailingAt 2" 0 "''bkt''"
      sampleTree "''/tmp/x''" "''uploads/''" "ServiceError ''AccessDenied''"]
  by (simp add: sample_run_failed)

text \<open>
  Claim C5. In an upload walk that reaches fewer than \<open>2^63\<close> files (the counters are
  \<open>int64\<close>): at every write to a counter \<open>uploadedFiles \<le> totalFiles\<close>, the values of
  \<open>uploadedFiles\<close> never go down, a walk that ends without error leaves both counters at
  the number of files, and every \<open>os.Open\<close> of an upload comes directly after the write
  that counted its file in \<open>totalFiles\<close>.
\<close>

theorem progress_counters_bounded:
  assumes "countFiles tree < 2 ^ 63"
    and "st = uploadDirectoryToS3 osOpen put c bucketName tree directoryPath prefix"
  shows "(\<forall>t u. Counters t u \<in> set (events st) \<longrightarrow> sint u \<le> sint t) \<and>
         sorted (map sint (uploadedHistory (events st))) \<and>
         (last (events st) = PrintDone directoryPath \<longrightarrow>
            sint (uploadedFiles st) = int (countFiles tree) \<and>
            sint (totalFiles st) = int (countFiles tree)) \<and>
         (\<forall>i p r. i < length (events st) \<and> events st ! i = OsOpen p r \<longrightarrow>
            0 < i \<and> (\<exists>u. events st ! (i - 1) = Counters (u + 1) u))"
proof -
  let ?s0 = "\<lparr>totalFiles = 0, uploadedFiles = 0, s3Client = c, events = []\<rparr>"
  let ?fn = "uploadWalkFn osOpen put bucketName directoryPath prefix"
  let ?n = "countFiles tree"
  obtain s1 r where w: "walk tree directoryPath ?fn ?s0 = (s1, r)"
    by (cases "walk tree directoryPath ?fn ?s0")
  have st: "st = s1\<lparr>events := events s1 @
      [case r of Some e \<Rightarrow> PrintError (errorLine directoryPath e) | None \<Rightarrow> PrintDone directoryPath]\<rparr>"
    using assms(2) w by (simp add: uploadDirectoryToS3_def Walk_def split: option.splits)
  have "settled 0 ?s0" by (simp add: settled_def counted_def)
  moreover from assms(1) have "0 + ?n < 2 ^ 64" by simp
  ultimately have "counted (0 + ?n) (events (fst (walk tree directoryPath ?fn ?s0))) \<and>
      (snd (walk tree directoryPath ?fn ?s0) = None \<longrightarrow>
         settled (0 + ?n) (fst (walk tree directoryPath ?fn ?s0)))"
    by (intro walk_counted(1)) simp_all
  with w have c: "counted ?n (events s1)" and fin: "r = None \<longrightarrow> settled ?n s1" by simp_all
  have small: "unat x < 2 ^ 63" if "unat x \<le> ?n" for x :: "64 word"
    using that assms(1) by simp
  have 1: "\<forall>t u. Counters t u \<in> set (events st) \<longrightarrow> sint u \<le> sint t"
  proof (intro allI impI)
    fix t u
    assume "Counters t u \<in> set (events st)"
    with st have "Counters t u \<in> set (events s1)" by (auto split: option.splits)
    with c have "withinCount ?n (Counters t u)" unfolding counted_def by blast
    then have le: "unat u \<le> unat t" "unat t \<le> ?n" by simp_all
    then have "sint u = int (unat u)" "sint t = int (unat t)"
      by (simp_all only: sint_unat64 small order_trans [OF le(1) le(2)])
    with le(1) show "sint u \<le> sint t" by (simp only: of_nat_le_iff)
  qed
  have hist: "uploadedHistory (events st) = uploadedHistory (events s1)"
    using st by (simp add: uploadedHistory_append split: option.splits)
  have "map sint (uploadedHistory (events s1)) = map (\<lambda>x. int (unat x)) (uploadedHistory (events s1))"
  proof (rule map_cong [OF refl])
    fix x
    assume "x \<in> set (uploadedHistory (events s1))"
    then have "unat x \<le> ?n" by (rule counted_history_le [OF c])
    then show "sint x = int (unat x)" by (simp only: sint_unat64 small)
  qed
  moreover from c have "sorted (map (\<lambda>x. int (unat x)) (uploadedHistory (events s1)))"
    unfolding counted_def by (intro sorted_int_unat) blast
  ultimately have 2: "sorted (map sint (uploadedHistory (events st)))"
    using hist by (simp only:)
  have 3: "last (events st) = PrintDone directoryPath \<longrightarrow>
            sint (uploadedFiles st) = int ?n \<and> sint (totalFiles st) = int ?n"
  proof
    assume "last (events st) = PrintDone directoryPath"
    with st have "r = None" by (simp split: option.splits)
    with fin have s: "totalFiles s1 = of_nat ?n" "uploadedFiles s1 = of_nat ?n"
      by (simp_all add: settled_def)
    from assms(1) have "?n < 2 ^ 64" by simp
    then have "unat (of_nat ?n :: 64 word) = ?n" by (rule unat_of_nat64)
    with assms(1) have "sint (of_nat ?n :: 64 word) = int ?n" by (simp only: sint_unat64)
    with s st show "sint (uploadedFiles st) = int ?n \<and> sint (totalFiles st) = int ?n" by simp
  qed
  have a: "announcedFrom None (events s1)"
    using Walk_announced [of ?s0 tree directoryPath osOpen put bucketName directoryPath prefix] w
    by (simp add: Walk_def)
  have 4: "\<forall>i p r. i < length (events st) \<and> events st ! i = OsOpen p r \<longrightarrow>
            0 < i \<and> (\<exists>u. events st ! (i - 1) = Counters (u + 1) u)"
  proof (intro allI impI)
    fix i p r'
    assume h: "i < length (events st) \<and> events st ! i = OsOpen p r'"
    have i: "i < length (events s1)"
    proof (rule ccontr)
      assume "\<not> i < length (events s1)"
      with h st have "i = length (events s1)" by simp
      with h st show False by (simp split: option.splits)
    qed
    with h st have o: "events s1 ! i = OsOpen p r'" by (simp add: nth_append)
    from announcedFrom_nth [OF a i] o
    have "adjacentOK (if i = 0 then None else Some (events s1 ! (i - 1))) (OsOpen p r')" by simp
    then obtain t u where "(if i = 0 then None else Some (events s1 ! (i - 1))) = Some (Counters t u)"
      and "t = u + 1" by (blast dest: adjacentOK_OsOpen)
    then have "0 < i" and "events s1 ! (i - 1) = Counters (u + 1) u" by (simp_all split: if_splits)
    moreover from i have "i - 1 < length (events s1)" by simp
    ultimately show "0 < i \<and> (\<exists>u. events st ! (i - 1) = Counters (u + 1) u)"
      using st by (simp add: nth_append)
  qed
  from 1 2 3 4 show ?thesis by blast
qed

theorem progress_counters_bounded_witness:
  "countFiles sampleTree < 2 ^ 63 \<and>
   sint (uploadedFiles (uploadDirectoryToS3 openAlways (putFailingAt 0) 0 ''bkt'' sampleTree
                          ''/tmp/x'' ''uploads/'')) = 3 \<and>
   sint (totalFiles (uploadDirectoryToS3 openAlways (putFailingAt 0) 0 ''bkt'' sampleTree
                          ''/tmp/x'' ''uploads/'')) = 3 \<and>
   sorted (map sint (uploadedHistory (events (uploadDirectoryToS3 openAlways (putFailingAt 0) 0
                          ''bkt'' sampleTree ''/tmp/x'' ''uploads/''))))"
  using progress_counters_bounded [OF _ refl, of sampleTree openAlways "putFailingAt 0" 0 "''bkt''"
      "''/tmp/x''" "''uploads/''"]
  by (simp add: sample_run_done countFiles_sample)

text \<open>
  Claim C6: the object key is \<open>prefix\<close> joined with the file's path relative to
  \<open>directoryPath\<close>. The code takes the relative path with \<open>strings.TrimPrefix\<close>, while
  \<open>filepath.Walk\<close> hands it cleaned paths: for a directory path that is not clean the
  prefix is not found and the whole path goes into the key. For \<open>directoryPath = ./x\<close>
  the file \<open>f.txt\<close> of the directory is put under \<open>uploads/x/f.txt\<close>, not
  \<open>uploads/f.txt\<close>.
\<close>

theorem key_keeps_unclean_directory_path:
  "events (uploadDirectoryToS3 openAlways (putFailingAt 0) 0 ''bkt''
             (Folder [(''f.txt'', RegularFile)]) ''./x'' ''uploads/'') =
     [Counters 1 0, OsOpen ''x/f.txt'' None,
      PutObject ''bkt'' ''uploads/x/f.txt'' ''data'' None, Counters 1 1,
      PrintProgress 1 1 ''x/f.txt'', PrintDone ''./x'']"
  by (simp add: upload_defs)

text \<open>The example of the claim does hold: the directory path \<open>/tmp/x\<close> is clean.\<close>

lemma key_of_clean_directory_path:
  "Join ''uploads/'' (TrimPrefix ''/tmp/x/sub/f.txt'' ''/tmp/x'') = ''uploads/sub/f.txt''"
  by (simp add: upload_defs)

section \<open>The directory tree: lemmas\<close>

lemma buildChildren_acc:
  "buildChildren files rootPath acc =
     (case buildChildren files rootPath [] of Inl err \<Rightarrow> Inl err | Inr cs \<Rightarrow> Inr (acc @ cs))"
proof (induction files arbitrary: acc)
  case Nil
  then show ?case by simp
next
  case (Cons a files)
  obtain name t where a: "a = (name, t)" by (cases a)
  show ?case
  proof (cases "IsDir t \<and> name \<noteq> ''__MACOSX''")
    case False
    with a Cons.IH [of acc] show ?thesis by auto
  next
    case True
    show ?thesis
    proof (cases "buildTree t (Join rootPath name)")
      case (Inl err)
      with a True show ?thesis by simp
    next
      case (Inr childNode)
      with a True Cons.IH [of "acc @ [childNode]"] Cons.IH [of "[childNode]"]
      show ?thesis by (simp split: sum.splits)
    qed
  qed
qed

lemma buildTree_listable:
  "(listable t \<longrightarrow> buildTree t rootPath = Inr (expectedTree t rootPath)) \<and>
   (\<not> listable t \<longrightarrow> (\<exists>err. buildTree t rootPath = Inl err))"
  "(listableNames files \<longrightarrow>
      buildChildren files rootPath acc = Inr (acc @ expectedChildren files rootPath)) \<and>
   (\<not> listableNames files \<longrightarrow> (\<exists>err. buildChildren files rootPath acc = Inl err))"
proof (induction t rootPath and files rootPath acc rule: buildTree_buildChildren.induct)
  case (1 files rootPath)
  then show ?case by (auto split: sum.splits)
next
  case (4 name t files rootPath children)
  show ?case
  proof (cases "IsDir t \<and> name \<noteq> ''__MACOSX''")
    case False
    with 4(1) 4(4) show ?thesis by auto
  next
    case True
    show ?thesis
    proof (cases "buildTree t (Join rootPath name)")
      case (Inl err)
      with True 4(2) show ?thesis by auto
    next
      case (Inr childNode)
      with True 4(2) 4(3) [of childNode] show ?thesis by auto
    qed
  qed
qed auto

lemma expectedChildren_map:
  "expectedChildren files rootPath =
     map (\<lambda>(name, c). expectedTree c (Join rootPath name)) (subdirs files)"
proof (induction files)
  case Nil
  then show ?case by (simp add: subdirs_def)
next
  case (Cons a files)
  obtain name t where "a = (name, t)" by (cases a)
  with Cons show ?case by (simp add: subdirs_def)
qed

lemma listableNames_subdirs:
  "listableNames files = (\<forall>(name, c) \<in> set (subdirs files). listable c)"
  by (induction files) (auto simp: subdirs_def)



section \<open>Extraction: lemmas\<close>

lemma extractFiles_Cons:
  "extractFiles n w extractPath (f # rest) =
     (case extractFiles n w extractPath [f] of
        None \<Rightarrow> None
      | Some (w1, Some err) \<Rightarrow> Some (w1, Some err)
      | Some (w1, None) \<Rightarrow> extractFiles n w1 extractPath rest)"
  by (simp add: Let_def split: sum.splits option.splits prod.splits)

lemma extractFiles_append:
  "extractFiles n w extractPath (pre @ post) =
     (case extractFiles n w extractPath pre of
        None \<Rightarrow> None
      | Some (w1, Some err) \<Rightarrow> Some (w1, Some err)
      | Some (w1, None) \<Rightarrow> extractFiles n w1 extractPath post)"
proof (induction pre arbitrary: w)
  case Nil
  then show ?case by simp
next
  case (Cons f pre)
  have "extractFiles n w extractPath ((f # pre) @ post) =
     (case extractFiles n w extractPath [f] of
        None \<Rightarrow> None
      | Some (w1, Some err) \<Rightarrow> Some (w1, Some err)
      | Some (w1, None) \<Rightarrow> extractFiles n w1 extractPath (pre @ post))"
    using extractFiles_Cons [of n w extractPath f "pre @ post"] by simp
  also have "\<dots> =
     (case extractFiles n w extractPath (f # pre) of
        None \<Rightarrow> None
      | Some (w1, Some err) \<Rightarrow> Some (w1, Some err)
      | Some (w1, None) \<Rightarrow> extractFiles n w1 extractPath post)"
    by (subst (2) extractFiles_Cons) (simp add: Cons.IH split: option.splits prod.splits)
  finally show ?case .
qed

lemma extractFiles_skip:
  "HasPrefix (fileName f) ''__MACOSX/'' \<Longrightarrow> extractFiles n w extractPath [f] = Some (w, None)"
  by simp

lemma dirsAlong_last: "p \<noteq> [] \<Longrightarrow> upper @ p \<in> set (dirsAlong upper p)"
proof (induction p arbitrary: upper)
  case Nil
  then show ?case by simp
next
  case (Cons e es)
  show ?case
  proof (cases "es = []")
    case True
    then show ?thesis by simp
  next
    case False
    from Cons.IH [OF False, of "upper @ [e]"] show ?thesis by simp
  qed
qed

lemma dirsAlong_self: "p \<noteq> [] \<Longrightarrow> p \<in> set (dirsAlong [] p)"
  using dirsAlong_last [of p "[]"] by simp

lemma map_of_const: "q \<in> set qs \<Longrightarrow> map_of (map (\<lambda>q. (q, c)) qs) q = Some c"
  by (induction qs) auto

lemma map_of_const_None: "q \<notin> set qs \<Longrightarrow> map_of (map (\<lambda>q. (q, c)) qs) q = None"
  by (induction qs) auto


lemma MkdirAll_creates:
  assumes "MkdirAll w path = Inr w1" and "\<not> isDir w (resolve (cwd w) path)"
  shows "table w1 \<noteq> table w"
proof -
  let ?p = "resolve (cwd w) path"
  let ?new = "filter (\<lambda>q. lookup w q = None) (dirsAlong [] ?p)"
  from assms(2) have ne: "?p \<noteq> []" by (auto simp: isDir_def lookup_def)
  from assms(1) have ok: "\<not> list_ex (isFile w) (dirsAlong [] ?p)"
    and w1: "w1 = w\<lparr>table := map (\<lambda>q. (q, DirNode)) ?new @ table w\<rparr>"
    by (auto simp: MkdirAll_def Let_def split: if_splits)
  from ne have mem: "?p \<in> set (dirsAlong [] ?p)" by (rule dirsAlong_self)
  with ok have nf: "\<not> isFile w ?p" by (auto simp: list_ex_iff)
  have "lookup w ?p = None"
  proof (cases "lookup w ?p")
    case (Some nd)
    with nf assms(2) show ?thesis by (cases nd) (simp_all add: isFile_def isDir_def)
  qed simp
  with mem have "?p \<in> set ?new" by simp
  then have "?new \<noteq> []" by (metis empty_iff empty_set)
  then have "length (table w1) \<noteq> length (table w)" using w1 by simp
  then show ?thesis by auto
qed

lemma map_of_filter_other:
  "map_of (filter (\<lambda>(q, m). q \<noteq> p) xs) q = (if q = p then None else map_of xs q)"
  by (induction xs) auto

lemma lookup_store:
  "lookup (store w p n) q = (if q = [] then Some DirNode else if q = p then Some n else lookup w q)"
  by (simp add: lookup_def store_def map_of_filter_other)

lemma lookup_erase:
  "lookup (erase w p) q = (if q = [] then Some DirNode else if q = p then None else lookup w q)"
  by (simp add: lookup_def erase_def map_of_filter_other)

lemma Remove_gone:
  "Remove w path = Inr w1 \<Longrightarrow> lookup w1 (resolve (cwd w) path) = None"
  by (auto simp: Remove_def Let_def lookup_erase split: if_splits)

lemma Copy_written:
  "Copy w path (Readable bytes) = (w1, r) \<Longrightarrow> resolve (cwd w) path \<noteq> []
     \<Longrightarrow> lookup w1 (resolve (cwd w) path) = Some (FileNode bytes)"
  by (auto simp: lookup_store)

lemmas extract_defs =
  MkdirAll_def OpenReader_def OpenFile_def Remove_def store_def erase_def lookup_def
  isFile_def isDir_def hasChildren_def resolve_def entryIsDir_def HasPrefix_def HasSuffix_def
  Join_def Clean_def Dir_def Separator_def Let_def entry_def sampleArchives_def sampleWorld_def

section \<open>Paths: lemmas\<close>

lemma splitSep_nonempty: "splitSep s \<noteq> []"
  by (induction s) (auto split: list.splits)

lemma splitSep_slashFree: "e \<in> set (splitSep s) \<Longrightarrow> Separator \<notin> set e"
proof (induction s arbitrary: e)
  case Nil
  then show ?case by simp
next
  case (Cons c cs)
  show ?case
  proof (cases "c = Separator")
    case True
    with Cons show ?thesis by auto
  next
    case False
    obtain x xs where s: "splitSep cs = x # xs"
      using splitSep_nonempty [of cs] by (cases "splitSep cs") auto
    with Cons.prems False have "e = c # x \<or> e \<in> set xs" by simp
    with Cons.IH [of x] Cons.IH [of e] s False show ?thesis by auto
  qed
qed

lemma splitSep_single: "Separator \<notin> set a \<Longrightarrow> splitSep a = [a]"
  by (induction a) auto

lemma splitSep_append: "Separator \<notin> set a \<Longrightarrow> splitSep (a @ Separator # b) = a # splitSep b"
  by (induction a) auto

lemma splitSep_joinSep:
  "es \<noteq> [] \<Longrightarrow> \<forall>e \<in> set es. Separator \<notin> set e \<Longrightarrow> splitSep (joinSep es) = es"
proof (induction es rule: joinSep.induct)
  case 1
  then show ?case by simp
next
  case (2 e)
  then show ?case by (simp add: splitSep_single)
next
  case (3 e f es)
  then show ?case by (simp add: splitSep_append)
qed

lemma joinSep_append:
  "xs \<noteq> [] \<Longrightarrow> ys \<noteq> [] \<Longrightarrow> joinSep (xs @ ys) = joinSep xs @ Separator # joinSep ys"
proof (induction xs rule: joinSep.induct)
  case 1
  then show ?case by simp
next
  case (2 e)
  then show ?case by (cases ys) simp_all
next
  case (3 e f es)
  then show ?case by simp
qed

lemma applyElems_append:
  "applyElems st (xs @ ys) = applyElems (applyElems st xs) ys"
  by (induction xs arbitrary: st) auto

lemma applyElems_real: "\<forall>x \<in> set ys. real x \<Longrightarrow> applyElems st ys = st @ ys"
  by (induction ys arbitrary: st) (auto simp: real_def)

lemma normal_snoc_real: "normal xs \<Longrightarrow> real e \<Longrightarrow> normal (xs @ [e])"
  by (induction xs) (auto simp: real_def)

lemma normal_snoc_dotdot:
  "normal xs \<Longrightarrow> xs = [] \<or> last xs = ''..'' \<Longrightarrow> normal (xs @ [''..''])"
proof (induction xs)
  case Nil
  then show ?case by simp
next
  case (Cons e es)
  show ?case
  proof (cases "e = ''..''")
    case True
    with Cons show ?thesis by (cases "es = []") auto
  next
    case False
    with Cons.prems have "\<forall>x \<in> set (e # es). real x" by simp
    moreover from Cons.prems have "last (e # es) = ''..''" by simp
    moreover have "last (e # es) \<in> set (e # es)" by (rule last_in_set) simp
    ultimately have "real ''..''" by metis
    then show ?thesis by (simp add: real_def)
  qed
qed

lemma normal_butlast: "normal xs \<Longrightarrow> normal (butlast xs)"
  by (induction xs) (auto dest: in_set_butlastD)

lemma normal_elems: "normal xs \<Longrightarrow> x \<in> set xs \<Longrightarrow> x = ''..'' \<or> real x"
  by (induction xs) (auto split: if_splits)

lemma normal_after_real:
  "normal (xs @ ys) \<Longrightarrow> xs \<noteq> [] \<Longrightarrow> last xs \<noteq> ''..'' \<Longrightarrow> \<forall>y \<in> set ys. real y"
proof (induction xs)
  case Nil
  then show ?case by simp
next
  case (Cons e es)
  show ?case
  proof (cases "e = ''..''")
    case True
    with Cons.prems have "es \<noteq> []" by auto
    with Cons True show ?thesis by simp
  next
    case False
    with Cons.prems show ?thesis by simp
  qed
qed

lemma tidy_last_real:
  assumes "tidy rooted acc" and "acc \<noteq> []" and "last acc \<noteq> ''..''"
  shows "real (last acc)"
proof -
  from assms(2) have "last acc \<in> set acc" by simp
  with assms(1) have "last acc = ''..'' \<or> real (last acc)"
    unfolding tidy_def by (blast dest: normal_elems)
  with assms(3) show ?thesis by simp
qed

lemma tidy_rooted_top:
  assumes "tidy True acc" and "\<not> (acc \<noteq> [] \<and> last acc \<noteq> ''..'')"
  shows "acc = []"
proof (rule ccontr)
  assume ne: "acc \<noteq> []"
  then have "last acc \<in> set acc" by simp
  with assms(1) have "real (last acc)" unfolding tidy_def by blast
  with assms(2) ne show False by (simp add: real_def)
qed

lemma tidy_butlast: "tidy rooted acc \<Longrightarrow> tidy rooted (butlast acc)"
  unfolding tidy_def by (auto dest: in_set_butlastD intro: normal_butlast)

lemma tidy_snoc_real:
  "tidy rooted acc \<Longrightarrow> real e \<Longrightarrow> Separator \<notin> set e \<Longrightarrow> tidy rooted (acc @ [e])"
  unfolding tidy_def by (auto intro: normal_snoc_real)

lemma tidy_snoc_dotdot:
  "tidy False acc \<Longrightarrow> acc = [] \<or> last acc = ''..'' \<Longrightarrow> tidy False (acc @ [''..''])"
  unfolding tidy_def by (auto intro: normal_snoc_dotdot simp: Separator_def)

lemma cleanElems_tidy:
  "tidy rooted acc \<Longrightarrow> \<forall>e \<in> set es. Separator \<notin> set e \<Longrightarrow> tidy rooted (cleanElems rooted acc es)"
proof (induction es arbitrary: acc)
  case Nil
  then show ?case by simp
next
  case (Cons e es)
  from Cons.prems(2) have es: "\<forall>e \<in> set es. Separator \<notin> set e" and e: "Separator \<notin> set e"
    by simp_all
  consider (skip) "e = [] \<or> e = ''.''"
    | (pop) "e = ''..''" "acc \<noteq> [] \<and> last acc \<noteq> ''..''"
    | (top) "e = ''..''" "\<not> (acc \<noteq> [] \<and> last acc \<noteq> ''..'')" "rooted"
    | (up) "e = ''..''" "\<not> (acc \<noteq> [] \<and> last acc \<noteq> ''..'')" "\<not> rooted"
    | (elem) "real e"
    by (auto simp: real_def)
  then show ?case
  proof cases
    case skip
    with Cons.IH [OF Cons.prems(1) es] show ?thesis by auto
  next
    case pop
    with Cons.IH [OF tidy_butlast [OF Cons.prems(1)] es] show ?thesis by simp
  next
    case top
    with Cons.IH [OF Cons.prems(1) es] show ?thesis by auto
  next
    case up
    with Cons.prems(1) have "tidy False (acc @ [''..''])" by (intro tidy_snoc_dotdot) auto
    with up Cons.IH [OF _ es, of "acc @ [''..'']"] show ?thesis by auto
  next
    case elem
    with Cons.prems(1) e have "tidy rooted (acc @ [e])" by (intro tidy_snoc_real)
    with elem Cons.IH [OF _ es, of "acc @ [e]"] show ?thesis by (simp add: real_def)
  qed
qed

lemma cleanElems_applyElems:
  "tidy rooted acc \<Longrightarrow> rooted \<longrightarrow> base = [] \<Longrightarrow> \<forall>e \<in> set es. Separator \<notin> set e
     \<Longrightarrow> applyElems base (cleanElems rooted acc es) = applyElems (applyElems base acc) es"
proof (induction es arbitrary: acc)
  case Nil
  then show ?case by simp
next
  case (Cons e es)
  from Cons.prems(3) have es: "\<forall>e \<in> set es. Separator \<notin> set e" and e: "Separator \<notin> set e"
    by simp_all
  consider (skip) "e = [] \<or> e = ''.''"
    | (pop) "e = ''..''" "acc \<noteq> [] \<and> last acc \<noteq> ''..''"
    | (top) "e = ''..''" "\<not> (acc \<noteq> [] \<and> last acc \<noteq> ''..'')" "rooted"
    | (up) "e = ''..''" "\<not> (acc \<noteq> [] \<and> last acc \<noteq> ''..'')" "\<not> rooted"
    | (elem) "real e"
    by (auto simp: real_def)
  then show ?case
  proof cases
    case skip
    with Cons.IH [OF Cons.prems(1) Cons.prems(2) es] show ?thesis by auto
  next
    case pop
    then have r: "real (last acc)" using tidy_last_real [OF Cons.prems(1)] by simp
    from pop have "acc = butlast acc @ [last acc]" by simp
    then have "applyElems base acc = applyElems (applyElems base (butlast acc)) [last acc]"
      by (metis applyElems_append)
    with r have "applyElems base acc = applyElems base (butlast acc) @ [last acc]"
      by (simp add: real_def)
    then have "butlast (applyElems base acc) = applyElems base (butlast acc)" by simp
    with pop Cons.IH [OF tidy_butlast [OF Cons.prems(1)] Cons.prems(2) es] show ?thesis by simp
  next
    case top
    with Cons.prems(1) have "tidy True acc" by simp
    then have "acc = []" using top(2) by (rule tidy_rooted_top)
    with top Cons.prems(2) Cons.IH [OF Cons.prems(1) Cons.prems(2) es] show ?thesis by simp
  next
    case up
    with Cons.prems(1) have "tidy False (acc @ [''..''])" by (intro tidy_snoc_dotdot) auto
    with up Cons.IH [OF _ Cons.prems(2) es, of "acc @ [''..'']"] show ?thesis
      by (auto simp: applyElems_append)
  next
    case elem
    with Cons.prems(1) e have "tidy rooted (acc @ [e])" by (intro tidy_snoc_real)
    with elem Cons.IH [OF _ Cons.prems(2) es, of "acc @ [e]"] show ?thesis
      by (simp add: real_def applyElems_append)
  qed
qed

lemma tidy_Nil: "tidy rooted []"
  by (simp add: tidy_def)

lemma Clean_shape:
  "\<exists>rooted out. tidy rooted out \<and> Clean s = render rooted out \<and>
     (\<forall>wd. resolve wd s = applyElems (if rooted then [] else wd) out)"
proof (cases "s = []")
  case True
  have "tidy False [] \<and> Clean s = render False [] \<and>
     (\<forall>wd. resolve wd s = applyElems (if False then [] else wd) [])"
    using True by (simp add: tidy_Nil Clean_def render_def resolve_def)
  then show ?thesis by blast
next
  case False
  let ?r = "hd s = Separator"
  let ?out = "cleanElems ?r [] (splitSep s)"
  have sf: "\<forall>e \<in> set (splitSep s). Separator \<notin> set e" by (blast dest: splitSep_slashFree)
  have t: "tidy ?r ?out" by (rule cleanElems_tidy [OF tidy_Nil sf])
  have c: "Clean s = render ?r ?out" using False by (simp add: Clean_def render_def Let_def)
  have "resolve wd s = applyElems (if ?r then [] else wd) ?out" for wd
    using False cleanElems_applyElems [OF tidy_Nil _ sf, of ?r "if ?r then [] else wd"]
    by (simp add: resolve_def)
  with t c show ?thesis by blast
qed

lemma HasPrefix_iff: "HasPrefix s p \<longleftrightarrow> (\<exists>t. s = p @ t)"
proof
  assume "HasPrefix s p"
  then have "s = p @ drop (length p) s"
    by (metis HasPrefix_def append_take_drop_id)
  then show "\<exists>t. s = p @ t" ..
next
  assume "\<exists>t. s = p @ t"
  then show "HasPrefix s p" by (auto simp: HasPrefix_def)
qed

lemma splitSep_at_separator: "splitSep (a @ Separator # b) = splitSep a @ splitSep b"
proof (induction a)
  case Nil
  then show ?case by simp
next
  case (Cons c a)
  obtain x xs where "splitSep a = x # xs"
    using splitSep_nonempty [of a] by (cases "splitSep a") auto
  with Cons show ?case by simp
qed

lemma joinSep_hd: "out \<noteq> [] \<Longrightarrow> hd out \<noteq> [] \<Longrightarrow> joinSep out \<noteq> [] \<and> hd (joinSep out) = hd (hd out)"
  by (induction out rule: joinSep.induct) auto

lemma tidy_elem: "tidy r out \<Longrightarrow> e \<in> set out \<Longrightarrow> e \<noteq> [] \<and> e \<noteq> ''.'' \<and> Separator \<notin> set e"
  unfolding tidy_def by (auto dest: normal_elems simp: real_def)

lemma tidy_joinSep_hd:
  assumes "tidy r out" and "out \<noteq> []"
  shows "joinSep out \<noteq> [] \<and> hd (joinSep out) \<noteq> Separator"
proof -
  from assms(2) have "hd out \<in> set out" by simp
  with assms(1) have h: "hd out \<noteq> []" "Separator \<notin> set (hd out)" by (auto dest: tidy_elem)
  then have "hd (hd out) \<noteq> Separator" by (cases "hd out") auto
  with joinSep_hd [OF assms(2) h(1)] show ?thesis by simp
qed

lemma tidy_splitSep_joinSep: "tidy r out \<Longrightarrow> out \<noteq> [] \<Longrightarrow> splitSep (joinSep out) = out"
  by (intro splitSep_joinSep) (auto dest: tidy_elem)

lemma render_rooted:
  assumes "tidy r out"
  shows "render r out \<noteq> [] \<and> (hd (render r out) = Separator \<longleftrightarrow> r)"
proof (cases r)
  case True
  then show ?thesis by (simp add: render_def)
next
  case False
  show ?thesis
  proof (cases "out = []")
    case True
    with False show ?thesis by (simp add: render_def Separator_def)
  next
    case ne: False
    with False assms tidy_joinSep_hd [of r out] show ?thesis by (simp add: render_def)
  qed
qed

lemma prefix_elems:
  assumes rs: "tidy r rs" and cs: "tidy r' cs"
    and eq: "render r' cs = render r rs @ Separator # rest"
  shows "r' = r \<and> rs \<noteq> [] \<and> cs = rs @ splitSep rest"
proof -
  from render_rooted [OF rs] have "hd (render r rs @ Separator # rest) = hd (render r rs)"
    by simp
  with eq render_rooted [OF rs] render_rooted [OF cs] have same: "r' = r" by metis
  show ?thesis
  proof (cases r)
    case True
    with same eq have j: "joinSep cs = joinSep rs @ Separator # rest" by (simp add: render_def)
    then have cne: "cs \<noteq> []" by auto
    have rne: "rs \<noteq> []"
    proof
      assume "rs = []"
      with j have "hd (joinSep cs) = Separator" by simp
      with tidy_joinSep_hd [OF cs cne] show False by simp
    qed
    have "cs = splitSep (joinSep cs)" using tidy_splitSep_joinSep [OF cs cne] by simp
    also have "\<dots> = splitSep (joinSep rs) @ splitSep rest" by (simp only: j splitSep_at_separator)
    also have "\<dots> = rs @ splitSep rest" using tidy_splitSep_joinSep [OF rs rne] by simp
    finally show ?thesis using same rne by simp
  next
    case False
    have cne: "cs \<noteq> []"
    proof
      assume "cs = []"
      with False same have "render r' cs = ''.''" by (simp add: render_def)
      with eq have "length (render r rs @ Separator # rest) = length ''.''" by (simp only:)
      then have "render r rs = []" by simp
      with render_rooted [OF rs] show False by simp
    qed
    with False same have c: "render r' cs = joinSep cs" by (simp add: render_def)
    have split: "cs = splitSep (render r rs) @ splitSep rest"
    proof -
      have "cs = splitSep (joinSep cs)" using tidy_splitSep_joinSep [OF cs cne] by simp
      also have "joinSep cs = render r rs @ Separator # rest" using c eq by simp
      also have "splitSep (render r rs @ Separator # rest) = splitSep (render r rs) @ splitSep rest"
        by (rule splitSep_at_separator)
      finally show ?thesis .
    qed
    have rne: "rs \<noteq> []"
    proof
      assume "rs = []"
      with False have "render r rs = ''.''" by (simp add: render_def)
      with split have "''.'' \<in> set cs" by (simp add: Separator_def)
      with tidy_elem [OF cs] show False by blast
    qed
    with False have "render r rs = joinSep rs" by (simp add: render_def)
    with split tidy_splitSep_joinSep [OF rs rne] have "cs = rs @ splitSep rest" by simp
    with same rne show ?thesis by simp
  qed
qed

lemma properPrefix_append: "ys \<noteq> [] \<Longrightarrow> properPrefix xs (xs @ ys)"
  by (cases ys) (simp_all add: properPrefix_def)

lemma check_within:
  assumes chk: "HasPrefix (Clean path) (Clean root @ [Separator])"
    and top: "last (splitSep (Clean root)) \<noteq> ''..''"
  shows "within wd root path"
proof -
  obtain r rs where rs: "tidy r rs" and cr: "Clean root = render r rs"
    and rr: "\<And>wd. resolve wd root = applyElems (if r then [] else wd) rs"
    using Clean_shape [of root] by blast
  obtain r' cs where cs: "tidy r' cs" and cp: "Clean path = render r' cs"
    and rp: "\<And>wd. resolve wd path = applyElems (if r' then [] else wd) cs"
    using Clean_shape [of path] by blast
  from chk obtain rest where "Clean path = (Clean root @ [Separator]) @ rest"
    unfolding HasPrefix_iff by blast
  with cr cp have eq: "render r' cs = render r rs @ Separator # rest" by simp
  from prefix_elems [OF rs cs eq]
  have same: "r' = r" and rne: "rs \<noteq> []" and app: "cs = rs @ splitSep rest" by simp_all
  have "splitSep (Clean root) = (if r then [] # rs else rs)"
    using cr rne tidy_splitSep_joinSep [OF rs rne] by (simp add: render_def)
  with top rne have lst: "last rs \<noteq> ''..''" by (simp split: if_splits)
  from cs app have "normal (rs @ splitSep rest)" by (simp add: tidy_def)
  from normal_after_real [OF this rne lst] have re: "\<forall>y \<in> set (splitSep rest). real y" .
  have "resolve wd path = applyElems (applyElems (if r then [] else wd) rs) (splitSep rest)"
    using rp [of wd] same app by (simp add: applyElems_append)
  also have "\<dots> = resolve wd root @ splitSep rest"
    using re rr [of wd] by (simp add: applyElems_real)
  finally show ?thesis
    unfolding within_def using splitSep_nonempty [of rest] by (simp add: properPrefix_append)
qed

text \<open>A cleaned path is a fixed point of \<open>Clean\<close>, and \<open>Dir\<close> of it drops its last element.\<close>

lemma resolve_render:
  assumes "tidy r xs"
  shows "resolve wd (render r xs) = applyElems (if r then [] else wd) xs"
proof (cases r)
  case True
  show ?thesis
  proof (cases "xs = []")
    case e: True
    with True show ?thesis by (simp add: render_def resolve_def)
  next
    case False
    with True tidy_splitSep_joinSep [OF assms] show ?thesis
      by (simp add: render_def resolve_def)
  qed
next
  case False
  show ?thesis
  proof (cases "xs = []")
    case True
    with False show ?thesis by (simp add: render_def resolve_def Separator_def)
  next
    case ne: False
    with False tidy_joinSep_hd [OF assms ne] tidy_splitSep_joinSep [OF assms ne] show ?thesis
      by (simp add: render_def resolve_def)
  qed
qed

lemma normal_before_dotdot:
  assumes "normal (acc @ ''..'' # es)"
  shows "acc = [] \<or> last acc = ''..''"
proof (rule ccontr)
  assume "\<not> (acc = [] \<or> last acc = ''..'')"
  then have "acc \<noteq> []" "last acc \<noteq> ''..''" by simp_all
  from normal_after_real [OF assms this] show False by (simp add: real_def)
qed

lemma tidy_append_left: "tidy r (xs @ ys) \<Longrightarrow> tidy r xs"
proof -
  assume t: "tidy r (xs @ ys)"
  have "normal (xs @ ys) \<Longrightarrow> normal xs" by (induction xs) auto
  with t show ?thesis by (auto simp: tidy_def)
qed

lemma cleanElems_tidy_id: "tidy r (acc @ xs) \<Longrightarrow> cleanElems r acc xs = acc @ xs"
proof (induction xs arbitrary: acc)
  case Nil
  then show ?case by simp
next
  case (Cons e es)
  from Cons.prems have e: "e \<noteq> []" "e \<noteq> ''.''" using tidy_elem [of r "acc @ e # es" e] by simp_all
  from Cons.prems have t: "tidy r ((acc @ [e]) @ es)" by simp
  show ?case
  proof (cases "e = ''..''")
    case True
    with Cons.prems have "\<not> r" by (auto simp: tidy_def real_def)
    moreover from Cons.prems True have "acc = [] \<or> last acc = ''..''"
      using normal_before_dotdot [of acc es] by (simp add: tidy_def)
    ultimately show ?thesis using True Cons.IH [OF t] by auto
  next
    case False
    with e Cons.IH [OF t] show ?thesis by simp
  qed
qed

lemma cleanElems_append:
  "cleanElems r acc (ys @ zs) = cleanElems r (cleanElems r acc ys) zs"
  by (induction ys arbitrary: acc) auto

lemma Clean_render:
  assumes "tidy r xs"
  shows "Clean (render r xs) = render r xs"
proof (cases r)
  case True
  show ?thesis
  proof (cases "xs = []")
    case e: True
    with True show ?thesis by (simp add: render_def Clean_def)
  next
    case False
    with True tidy_splitSep_joinSep [OF assms] cleanElems_tidy_id [of r "[]" xs] assms
    show ?thesis by (simp add: render_def Clean_def)
  qed
next
  case False
  show ?thesis
  proof (cases "xs = []")
    case True
    with False show ?thesis by (simp add: render_def Clean_def Separator_def)
  next
    case ne: False
    with False tidy_joinSep_hd [OF assms ne] tidy_splitSep_joinSep [OF assms ne]
      cleanElems_tidy_id [of r "[]" xs] assms
    show ?thesis by (simp add: render_def Clean_def)
  qed
qed

lemma Clean_trailing_separator:
  assumes "tidy r xs" and "r \<or> xs \<noteq> []"
  shows "Clean (render r xs @ [Separator]) = render r xs"
proof -
  let ?s = "render r xs"
  from render_rooted [OF assms(1)] have ne: "?s \<noteq> []" and hd: "hd ?s = Separator \<longleftrightarrow> r"
    by simp_all
  have "splitSep (?s @ [Separator]) = splitSep ?s @ [[]]"
    using splitSep_at_separator [of ?s "[]"] by simp
  then have "cleanElems r [] (splitSep (?s @ [Separator])) = cleanElems r [] (splitSep ?s)"
    by (simp add: cleanElems_append)
  with ne hd have "Clean (?s @ [Separator]) = Clean ?s" by (simp add: Clean_def)
  with Clean_render [OF assms(1)] show ?thesis by simp
qed

lemma dirPart_none: "Separator \<notin> set l \<Longrightarrow> rev (dropWhile (\<lambda>c. c \<noteq> Separator) (rev l)) = []"
  by (auto simp: dropWhile_eq_Nil_conv)

lemma dirPart_some:
  "Separator \<notin> set l
     \<Longrightarrow> rev (dropWhile (\<lambda>c. c \<noteq> Separator) (rev (a @ Separator # l))) = a @ [Separator]"
  by (simp add: dropWhile_append)

lemma Dir_render:
  assumes t: "tidy r cs" and ne: "cs \<noteq> []"
  shows "Dir (render r cs) = render r (butlast cs)"
proof -
  from ne obtain bs l where cs: "cs = bs @ [l]" by (metis rev_exhaust)
  from t cs have l: "Separator \<notin> set l" using tidy_elem [of r cs l] by simp
  have tb: "tidy r bs" using tidy_append_left [of r bs "[l]"] t cs by simp
  show ?thesis
  proof (cases "bs = []")
    case True
    show ?thesis
    proof (cases r)
      case r: True
      have "render r cs = [] @ Separator # l" using r cs True by (simp add: render_def)
      then have "Dir (render r cs) = Clean ([] @ [Separator])"
        by (simp only: Dir_def dirPart_some [OF l])
      with r True cs show ?thesis by (simp add: Clean_def render_def)
    next
      case False
      have "render r cs = l" using False cs True by (simp add: render_def)
      then have "Dir (render r cs) = Clean []" by (simp only: Dir_def dirPart_none [OF l])
      with False True cs show ?thesis by (simp add: Clean_def render_def)
    qed
  next
    case False
    have j: "joinSep cs = joinSep bs @ Separator # l"
      using joinSep_append [OF False, of "[l]"] cs by simp
    have "render r cs = render r bs @ Separator # l"
      using j False cs by (simp add: render_def)
    then have "Dir (render r cs) = Clean (render r bs @ [Separator])"
      by (simp only: Dir_def dirPart_some [OF l])
    with Clean_trailing_separator [OF tb] False cs show ?thesis by simp
  qed
qed
section \<open>Extraction stays below the extraction directory\<close>

text \<open>
  When the cleaned extraction directory does not end in \<open>..\<close>, an entry that passes the
  check of line 72 is written strictly below it, a nested archive is extracted into a
  directory at or below it, and so a run of \<open>extractZipFiles\<close> leaves every file outside
  the extraction directory as it was.
\<close>

lemma nested_root:
  assumes chk: "HasPrefix (Clean (Join root name)) (Clean root @ [Separator])"
    and top: "last (splitSep (Clean root)) \<noteq> ''..''"
  shows "last (splitSep (Clean (Dir (Join root name)))) \<noteq> ''..'' \<and>
         (\<exists>ext. resolve wd (Dir (Join root name)) = resolve wd root @ ext)"
proof -
  let ?path = "Join root name"
  obtain r rs where rs: "tidy r rs" and cr: "Clean root = render r rs"
    and rr: "\<And>wd. resolve wd root = applyElems (if r then [] else wd) rs"
    using Clean_shape [of root] by blast
  have "\<exists>y. ?path = Clean y"
  proof (cases "root = [] \<and> name = []")
    case True
    then have "Clean ?path = ''.''" by (simp add: Join_def Clean_def)
    with chk have "length (Clean root @ [Separator]) \<le> length ''.''"
      by (simp only: HasPrefix_def)
    with render_rooted [OF rs] cr show ?thesis by simp
  next
    case False
    then show ?thesis by (auto simp: Join_def)
  qed
  then obtain y where y: "?path = Clean y" ..
  obtain r' cs where cs: "tidy r' cs" and cy: "Clean y = render r' cs"
    using Clean_shape [of y] by blast
  from y cy have p: "?path = render r' cs" by simp
  with Clean_render [OF cs] have cp: "Clean ?path = render r' cs" by simp
  from chk obtain rest where "Clean ?path = (Clean root @ [Separator]) @ rest"
    unfolding HasPrefix_iff by blast
  with cr cp have eq: "render r' cs = render r rs @ Separator # rest" by simp
  from prefix_elems [OF rs cs eq]
  have same: "r' = r" and rne: "rs \<noteq> []" and app: "cs = rs @ splitSep rest" by simp_all
  let ?more = "splitSep rest"
  have mne: "?more \<noteq> []" by (rule splitSep_nonempty)
  have "splitSep (Clean root) = (if r then [] # rs else rs)"
    using cr rne tidy_splitSep_joinSep [OF rs rne] by (simp add: render_def)
  with top rne have lst: "last rs \<noteq> ''..''" by (simp split: if_splits)
  from cs app have "normal (rs @ ?more)" by (simp add: tidy_def)
  from normal_after_real [OF this rne lst] have re: "\<forall>y \<in> set ?more. real y" .
  from app rne have cne: "cs \<noteq> []" by simp
  let ?xs = "butlast cs"
  have xs: "?xs = rs @ butlast ?more" using app mne by (simp add: butlast_append)
  have tx: "tidy r ?xs" using tidy_butlast [OF cs] same by simp
  have d: "Dir ?path = render r ?xs" using Dir_render [OF cs cne] p same by simp
  have xne: "?xs \<noteq> []" using xs rne by simp
  have "Clean (Dir ?path) = render r ?xs" using d Clean_render [OF tx] by simp
  then have "splitSep (Clean (Dir ?path)) = (if r then [] # ?xs else ?xs)"
    using xne tidy_splitSep_joinSep [OF tx xne] by (simp add: render_def)
  then have l1: "last (splitSep (Clean (Dir ?path))) = last ?xs" using xne by simp
  have "last ?xs \<noteq> ''..''"
  proof (cases "butlast ?more = []")
    case True
    with xs lst show ?thesis by simp
  next
    case False
    then have "last (butlast ?more) \<in> set ?more" by (metis in_set_butlastD last_in_set)
    with re have "real (last (butlast ?more))" by blast
    with False xs show ?thesis by (simp add: real_def)
  qed
  with l1 have A: "last (splitSep (Clean (Dir ?path))) \<noteq> ''..''" by simp
  have "\<forall>y \<in> set (butlast ?more). real y" using re by (blast dest: in_set_butlastD)
  then have "resolve wd (Dir ?path) = resolve wd root @ butlast ?more"
    using d resolve_render [OF tx, of wd] rr [of wd] xs
    by (simp add: applyElems_append applyElems_real)
  with A show ?thesis by blast
qed

lemma sameOutside_refl: "sameOutside R w w"
  by (simp add: sameOutside_def)

lemma sameOutside_trans: "sameOutside R w w1 \<Longrightarrow> sameOutside R w1 w2 \<Longrightarrow> sameOutside R w w2"
  by (simp add: sameOutside_def)

lemma properPrefix_longer: "properPrefix (R @ ext) q \<Longrightarrow> properPrefix R q"
  by (auto simp: properPrefix_def) (metis append_eq_conv_conj append_take_drop_id take_take length_append)

lemma sameOutside_nested: "sameOutside (R @ ext) w w' \<Longrightarrow> sameOutside R w w'"
  unfolding sameOutside_def by (blast dest: properPrefix_longer)

lemma properPrefix_irrefl: "properPrefix R q \<Longrightarrow> q \<noteq> R"
  by (auto simp: properPrefix_def)

lemma cwd_store: "cwd (store w p n) = cwd w"
  by (simp add: store_def)

lemma cwd_erase: "cwd (erase w p) = cwd w"
  by (simp add: erase_def)

lemma lookup_Nil: "lookup w [] = Some DirNode"
  by (simp add: lookup_def)

lemma store_sameOutside: "properPrefix R p \<Longrightarrow> sameOutside R w (store w p n)"
  by (auto simp: sameOutside_def fileAt_def lookup_store cwd_store lookup_Nil)

lemma erase_sameOutside: "properPrefix R p \<Longrightarrow> sameOutside R w (erase w p)"
  by (auto simp: sameOutside_def fileAt_def lookup_erase cwd_erase lookup_Nil)

lemma MkdirAll_sameOutside:
  assumes "MkdirAll w path = Inr w1"
  shows "sameOutside R w w1"
proof -
  let ?p = "resolve (cwd w) path"
  let ?new = "filter (\<lambda>q. lookup w q = None) (dirsAlong [] ?p)"
  from assms have w1: "w1 = w\<lparr>table := map (\<lambda>q. (q, DirNode)) ?new @ table w\<rparr>"
    by (auto simp: MkdirAll_def Let_def split: if_splits)
  have "fileAt w1 q = fileAt w q" for q
  proof (cases "q \<in> set ?new")
    case True
    then have "map_of (map (\<lambda>q. (q, DirNode)) ?new) q = Some DirNode" by (rule map_of_const)
    moreover from True have "lookup w q = None" by simp
    ultimately show ?thesis using w1 by (simp add: fileAt_def lookup_def)
  next
    case False
    then have "map_of (map (\<lambda>q. (q, DirNode)) ?new) q = None" by (rule map_of_const_None)
    then show ?thesis using w1 by (simp add: fileAt_def lookup_def map_add_def)
  qed
  with w1 show ?thesis by (simp add: sameOutside_def)
qed

lemma OpenFile_sameOutside:
  "OpenFile w path = Inr w1 \<Longrightarrow> properPrefix R (resolve (cwd w) path) \<Longrightarrow> sameOutside R w w1"
  by (auto simp: OpenFile_def Let_def store_sameOutside split: if_splits)

lemma Copy_sameOutside:
  "Copy w path src = (w1, r) \<Longrightarrow> properPrefix R (resolve (cwd w) path) \<Longrightarrow> sameOutside R w w1"
  by (cases src) (auto simp: store_sameOutside sameOutside_refl)

lemma Remove_sameOutside:
  "Remove w path = Inr w1 \<Longrightarrow> properPrefix R (resolve (cwd w) path) \<Longrightarrow> sameOutside R w w1"
  by (auto simp: Remove_def Let_def erase_sameOutside split: if_splits)

lemma sameOutside_cwd: "sameOutside R w w1 \<Longrightarrow> cwd w1 = cwd w"
  by (simp add: sameOutside_def)

lemma extractFiles_single_frame:
  assumes nested: "\<And>v z d v' e. extractZipFiles n v z d = Some (v', e) \<Longrightarrow>
      last (splitSep (Clean d)) \<noteq> ''..'' \<Longrightarrow> sameOutside (resolve (cwd v) d) v v'"
    and top: "last (splitSep (Clean root)) \<noteq> ''..''"
    and run: "extractFiles n w root [f] = Some (w', r)"
  shows "sameOutside (resolve (cwd w) root) w w'"
proof -
  let ?R = "resolve (cwd w) root"
  let ?path = "Join root (fileName f)"
  show ?thesis
  proof (cases "HasPrefix (fileName f) ''__MACOSX/''")
    case True
    with run show ?thesis by (simp add: sameOutside_refl)
  next
    case notS: False
    show ?thesis
    proof (cases "HasPrefix (Clean ?path) (Clean root @ [Separator])")
      case False
      with notS run show ?thesis by (auto simp: Let_def sameOutside_refl)
    next
      case chk: True
      have pp: "properPrefix ?R (resolve (cwd w) ?path)"
        using check_within [OF chk top, of "cwd w"] by (simp add: within_def)
      show ?thesis
      proof (cases "entryIsDir f")
        case True
        with notS chk run show ?thesis
          by (auto simp: Let_def sameOutside_refl MkdirAll_sameOutside split: sum.splits)
      next
        case isFile: False
        show ?thesis
        proof (cases "MkdirAll w (Dir ?path)")
          case (Inl err)
          with notS chk isFile run show ?thesis by (simp add: Let_def sameOutside_refl)
        next
          case w1: (Inr w1)
          then have s1: "sameOutside ?R w w1" by (rule MkdirAll_sameOutside)
          then have c1: "cwd w1 = cwd w" by (rule sameOutside_cwd)
          show ?thesis
          proof (cases "fileOpen f")
            case (Inl err)
            with notS chk isFile w1 run have "w' = w1" by (simp add: Let_def)
            with s1 show ?thesis by simp
          next
            case src: (Inr src)
            show ?thesis
            proof (cases "OpenFile w1 ?path")
              case (Inl err)
              with notS chk isFile w1 src run have "w' = w1" by (simp add: Let_def)
              with s1 show ?thesis by simp
            next
              case w2: (Inr w2)
              from pp c1 have "properPrefix ?R (resolve (cwd w1) ?path)" by simp
              with w2 have s2: "sameOutside ?R w1 w2" by (rule OpenFile_sameOutside)
              then have c2: "cwd w2 = cwd w" using c1 by (simp add: sameOutside_def)
              obtain w3 e3 where w3: "Copy w2 ?path src = (w3, e3)" by (cases "Copy w2 ?path src")
              from pp c2 have "properPrefix ?R (resolve (cwd w2) ?path)" by simp
              with w3 have "sameOutside ?R w2 w3" by (rule Copy_sameOutside)
              with s1 s2 have s3: "sameOutside ?R w w3" by (blast intro: sameOutside_trans)
              then have c3: "cwd w3 = cwd w" by (rule sameOutside_cwd)
              show ?thesis
              proof (cases e3)
                case (Some err)
                with notS chk isFile w1 src w2 w3 run have "w' = w3" by (simp add: Let_def)
                with s3 show ?thesis by simp
              next
                case None
                show ?thesis
                proof (cases "HasSuffix (fileName f) ''.zip''")
                  case False
                  with None notS chk isFile w1 src w2 w3 run have "w' = w3" by (simp add: Let_def)
                  with s3 show ?thesis by simp
                next
                  case zip: True
                  show ?thesis
                  proof (cases "extractZipFiles n w3 ?path (Dir ?path)")
                    case none: None
                    with zip None notS chk isFile w1 src w2 w3 run show ?thesis
                      by (simp add: Let_def)
                  next
                    case (Some res)
                    then obtain w4 e4 where
                      w4: "extractZipFiles n w3 ?path (Dir ?path) = Some (w4, e4)"
                      by (cases res) simp
                    from nested_root [OF chk top, of "cwd w3"] obtain ext
                      where t4: "last (splitSep (Clean (Dir ?path))) \<noteq> ''..''"
                        and r4: "resolve (cwd w3) (Dir ?path) = resolve (cwd w3) root @ ext"
                      by blast
                    from nested [OF w4 t4] r4 c3
                    have "sameOutside (?R @ ext) w3 w4" by simp
                    then have "sameOutside ?R w3 w4" by (rule sameOutside_nested)
                    with s3 have s4: "sameOutside ?R w w4" by (rule sameOutside_trans)
                    then have c4: "cwd w4 = cwd w" by (rule sameOutside_cwd)
                    show ?thesis
                    proof (cases e4)
                      case (Some err)
                      with w4 zip None notS chk isFile w1 src w2 w3 run have "w' = w4"
                        by (simp add: Let_def)
                      with s4 show ?thesis by simp
                    next
                      case ok: None
                      show ?thesis
                      proof (cases "Remove w4 ?path")
                        case (Inl err)
                        with ok w4 zip None notS chk isFile w1 src w2 w3 run have "w' = w4"
                          by (simp add: Let_def)
                        with s4 show ?thesis by simp
                      next
                        case w5: (Inr w5)
                        with ok w4 zip None notS chk isFile w1 src w2 w3 run have e: "w' = w5"
                          by (simp add: Let_def)
                        from pp c4 have "properPrefix ?R (resolve (cwd w4) ?path)" by simp
                        with w5 have "sameOutside ?R w4 w5" by (rule Remove_sameOutside)
                        with s4 e show ?thesis by (blast intro: sameOutside_trans)
                      qed
                    qed
                  qed
                qed
              qed
            qed
          qed
        qed
      qed
    qed
  qed
qed

lemma extractFiles_frame:
  assumes nested: "\<And>v z d v' e. extractZipFiles n v z d = Some (v', e) \<Longrightarrow>
      last (splitSep (Clean d)) \<noteq> ''..'' \<Longrightarrow> sameOutside (resolve (cwd v) d) v v'"
    and top: "last (splitSep (Clean root)) \<noteq> ''..''"
  shows "extractFiles n w root fs = Some (w', r) \<Longrightarrow> sameOutside (resolve (cwd w) root) w w'"
proof (induction fs arbitrary: w)
  case Nil
  then show ?case by (simp add: sameOutside_refl)
next
  case (Cons f fs)
  show ?case
  proof (cases "extractFiles n w root [f]")
    case None
    with Cons.prems show ?thesis by (subst (asm) extractFiles_Cons) simp
  next
    case (Some res)
    then obtain w1 e1 where one: "extractFiles n w root [f] = Some (w1, e1)" by (cases res) simp
    from extractFiles_single_frame [OF nested top one]
    have s1: "sameOutside (resolve (cwd w) root) w w1" by assumption
    then have c1: "cwd w1 = cwd w" by (rule sameOutside_cwd)
    show ?thesis
    proof (cases e1)
      case (Some err)
      with one Cons.prems have "w' = w1" by (subst (asm) extractFiles_Cons) simp
      with s1 show ?thesis by simp
    next
      case None
      with one Cons.prems have "extractFiles n w1 root fs = Some (w', r)"
        by (subst (asm) extractFiles_Cons) simp
      from Cons.IH [OF this] c1 have "sameOutside (resolve (cwd w) root) w1 w'" by simp
      with s1 show ?thesis by (rule sameOutside_trans)
    qed
  qed
qed

lemma extractZipFiles_frame:
  "extractZipFiles n w z root = Some (w', r) \<Longrightarrow> last (splitSep (Clean root)) \<noteq> ''..'' \<Longrightarrow>
   sameOutside (resolve (cwd w) root) w w'"
proof (induction n arbitrary: w z root w' r)
  case 0
  then show ?case by simp
next
  case (Suc n)
  let ?R = "resolve (cwd w) root"
  show ?case
  proof (cases "MkdirAll w root")
    case (Inl err)
    with Suc.prems(1) show ?thesis by (simp add: sameOutside_refl)
  next
    case w1: (Inr w1)
    then have s1: "sameOutside ?R w w1" by (rule MkdirAll_sameOutside)
    then have c1: "cwd w1 = cwd w" by (rule sameOutside_cwd)
    show ?thesis
    proof (cases "OpenReader w1 z")
      case (Inl err)
      with w1 Suc.prems(1) have "w' = w1" by simp
      with s1 show ?thesis by simp
    next
      case (Inr reader)
      with w1 Suc.prems(1) have "extractFiles n w1 root reader = Some (w', r)" by simp
      from extractFiles_frame [OF Suc.IH Suc.prems(2) this] c1
      have "sameOutside ?R w1 w'" by simp
      with s1 show ?thesis by (rule sameOutside_trans)
    qed
  qed
qed

text \<open>What \<open>os.MkdirAll\<close> changes: it adds the missing directories on the way to its path
  and nothing else; it leaves the file system as it is exactly when they are all there.\<close>

lemma dirsAlong_nonempty: "q \<in> set (dirsAlong upper p) \<Longrightarrow> q \<noteq> []"
  by (induction p arbitrary: upper) auto

lemma lookup_MkdirAll:
  assumes "MkdirAll w path = Inr w1"
  shows "lookup w1 q =
     (if q \<in> set (dirsAlong [] (resolve (cwd w) path)) \<and> lookup w q = None then Some DirNode
      else lookup w q)"
proof -
  let ?p = "resolve (cwd w) path"
  let ?new = "filter (\<lambda>q. lookup w q = None) (dirsAlong [] ?p)"
  from assms have w1: "w1 = w\<lparr>table := map (\<lambda>q. (q, DirNode)) ?new @ table w\<rparr>"
    by (auto simp: MkdirAll_def Let_def split: if_splits)
  show ?thesis
  proof (cases "q \<in> set ?new")
    case True
    then have "map_of (map (\<lambda>q. (q, DirNode)) ?new) q = Some DirNode" by (rule map_of_const)
    moreover from True have "q \<noteq> []" by (auto dest: dirsAlong_nonempty)
    ultimately show ?thesis using w1 True by (simp add: lookup_def)
  next
    case False
    then have "map_of (map (\<lambda>q. (q, DirNode)) ?new) q = None" by (rule map_of_const_None)
    with False show ?thesis using w1 by (auto simp: lookup_def map_add_def)
  qed
qed

lemma MkdirAll_succeeds:
  assumes "path \<noteq> []" and "\<not> list_ex (isFile w) (dirsAlong [] (resolve (cwd w) path))"
  shows "\<exists>w1. MkdirAll w path = Inr w1"
  using assms by (simp add: MkdirAll_def Let_def)

lemma MkdirAll_same_iff:
  assumes "MkdirAll w path = Inr w1"
  shows "w1 = w \<longleftrightarrow> (\<forall>q \<in> set (dirsAlong [] (resolve (cwd w) path)). isDir w q)"
proof -
  let ?p = "resolve (cwd w) path"
  let ?new = "filter (\<lambda>q. lookup w q = None) (dirsAlong [] ?p)"
  from assms have ok: "\<not> list_ex (isFile w) (dirsAlong [] ?p)"
    and w1: "w1 = w\<lparr>table := map (\<lambda>q. (q, DirNode)) ?new @ table w\<rparr>"
    by (auto simp: MkdirAll_def Let_def split: if_splits)
  have d: "isDir w q \<longleftrightarrow> lookup w q \<noteq> None" if "q \<in> set (dirsAlong [] ?p)" for q
  proof -
    from ok that have "\<not> isFile w q" by (auto simp: list_ex_iff)
    then show ?thesis by (cases "lookup w q") (auto simp: isFile_def isDir_def split: node.splits)
  qed
  show ?thesis
  proof (cases "?new = []")
    case True
    with w1 have "w1 = w" by simp
    moreover from True have "\<forall>q \<in> set (dirsAlong [] ?p). lookup w q \<noteq> None"
      by (auto simp: filter_empty_conv)
    ultimately show ?thesis using d by simp
  next
    case False
    then have "length (table w1) \<noteq> length (table w)" using w1 by simp
    then have "w1 \<noteq> w" by auto
    moreover from False obtain q where "q \<in> set (dirsAlong [] ?p)" "lookup w q = None"
      by (auto simp: filter_empty_conv)
    with d have "\<not> (\<forall>q \<in> set (dirsAlong [] ?p). isDir w q)" by auto
    ultimately show ?thesis by simp
  qed
qed


lemma fileAt_MkdirAll: "MkdirAll w path = Inr w1 \<Longrightarrow> fileAt w1 q = fileAt w q"
  using MkdirAll_sameOutside [of w path w1 q] properPrefix_irrefl [of q q]
  by (auto simp: sameOutside_def)
section \<open>Claims about the directory tree\<close>

text \<open>
  Claim C7. \<open>buildTree\<close> fails exactly when the root cannot be listed or a sub-directory it
  has to visit cannot be listed (\<open>listable\<close> says that they all can; directories named
  \<open>__MACOSX\<close> are not visited). When it succeeds it returns the node named \<open>rootPath\<close>
  whose children are, in listing order and one for one, the trees of the sub-directories
  other than \<open>__MACOSX\<close>, each built under \<open>Join rootPath name\<close>; files give no nodes.
\<close>

theorem buildTree_fails_or_mirrors_directories:
  "(listable t \<longrightarrow> buildTree t rootPath = Inr (expectedTree t rootPath)) \<and>
   (\<not> listable t \<longrightarrow> (\<exists>err. buildTree t rootPath = Inl err)) \<and>
   listable t =
     (case ReadDir t rootPath of
        Inl err \<Rightarrow> False
      | Inr files \<Rightarrow> (\<forall>(name, c) \<in> set (subdirs files). listable c)) \<and>
   expectedTree (Folder files) rootPath =
     TreeNode rootPath (map (\<lambda>(name, c). expectedTree c (Join rootPath name)) (subdirs files))"
proof -
  have "listable t =
     (case ReadDir t rootPath of
        Inl err \<Rightarrow> False
      | Inr files \<Rightarrow> (\<forall>(name, c) \<in> set (subdirs files). listable c))"
    by (cases t) (simp_all add: listableNames_subdirs)
  then show ?thesis
    using buildTree_listable(1) [of t rootPath] by (simp add: expectedChildren_map)
qed

theorem buildTree_fails_or_mirrors_directories_witness:
  "listable sampleDirs \<and>
   buildTree sampleDirs ''/r'' =
     Inr (TreeNode ''/r'' [TreeNode ''/r/a'' [TreeNode ''/r/a/b'' []], TreeNode ''/r/c'' []]) \<and>
   \<not> listable (Folder [(''d'', UnreadableFolder (PathError ''open'' ''/r/d'' ''permission denied''))]) \<and>
   buildTree (Folder [(''d'', UnreadableFolder (PathError ''open'' ''/r/d'' ''permission denied''))]) ''/r'' = Inl (PathError ''open'' ''/r/d'' ''permission denied'')"
  using buildTree_fails_or_mirrors_directories [of sampleDirs "''/r''" "[]"]
    buildTree_fails_or_mirrors_directories
      [of "Folder [(''d'', UnreadableFolder (PathError ''open'' ''/r/d'' ''permission denied''))]" "''/r''" "[]"]
  by (simp add: sampleDirs_def Join_def Clean_def Separator_def)

section \<open>Nested archives and the sentinel: lemmas\<close>

text \<open>An entry with a plain name is written at the extraction directory followed by the
  elements of the name, and its directory is that path without the last element.\<close>

lemma cleanElems_real: "\<forall>e \<in> set es. real e \<Longrightarrow> cleanElems r acc es = acc @ es"
  by (induction es arbitrary: acc) (auto simp: real_def)

lemma splitSep_nameElems:
  "splitSep name = nameElems name \<or> splitSep name = nameElems name @ [[]]"
proof -
  have "splitSep name \<noteq> []" by (rule splitSep_nonempty)
  then have "splitSep name = butlast (splitSep name) @ [last (splitSep name)]" by simp
  then show ?thesis by (auto simp: nameElems_def Let_def)
qed

lemma cleanElems_plain:
  assumes "plainName name"
  shows "cleanElems r acc (splitSep name) = acc @ nameElems name"
proof -
  from assms have re: "\<forall>e \<in> set (nameElems name). real e" by (simp add: plainName_def)
  from splitSep_nameElems [of name] show ?thesis
  proof
    assume "splitSep name = nameElems name"
    with re show ?thesis by (simp add: cleanElems_real)
  next
    assume "splitSep name = nameElems name @ [[]]"
    then have "cleanElems r acc (splitSep name) = cleanElems r (cleanElems r acc (nameElems name)) [[]]"
      by (simp add: cleanElems_append)
    with re show ?thesis by (simp add: cleanElems_real)
  qed
qed

lemma applyElems_plain:
  assumes "plainName name"
  shows "applyElems st (splitSep name) = st @ nameElems name"
proof -
  from assms have re: "\<forall>e \<in> set (nameElems name). real e" by (simp add: plainName_def)
  from splitSep_nameElems [of name] show ?thesis
  proof
    assume "splitSep name = nameElems name"
    with re show ?thesis by (simp add: applyElems_real)
  next
    assume "splitSep name = nameElems name @ [[]]"
    with re show ?thesis by (simp add: applyElems_append applyElems_real)
  qed
qed

lemma plainName_relative:
  assumes "plainName name"
  shows "name \<noteq> [] \<and> hd name \<noteq> Separator"
proof -
  from assms have ne: "nameElems name \<noteq> []" and re: "real (hd (nameElems name))"
    by (simp_all add: plainName_def)
  from splitSep_nameElems [of name] ne have h: "hd (splitSep name) = hd (nameElems name)" by auto
  show ?thesis
  proof (cases name)
    case Nil
    with ne show ?thesis by (simp add: nameElems_def)
  next
    case (Cons c cs)
    with h re show ?thesis by (auto simp: real_def)
  qed
qed

lemma Clean_elems:
  assumes "s \<noteq> []"
  shows "Clean s = render (hd s = Separator) (cleanElems (hd s = Separator) [] (splitSep s))"
  using assms by (simp add: Clean_def render_def Let_def)

lemma resolve_elems:
  assumes "s \<noteq> []"
  shows "resolve wd s =
    applyElems (if hd s = Separator then [] else wd) (cleanElems (hd s = Separator) [] (splitSep s))"
proof -
  let ?r = "hd s = Separator"
  have sf: "\<forall>e \<in> set (splitSep s). Separator \<notin> set e" by (blast dest: splitSep_slashFree)
  show ?thesis
    using assms cleanElems_applyElems [OF tidy_Nil _ sf, of ?r "if ?r then [] else wd"]
    by (simp add: resolve_def)
qed

lemma Join_plain:
  assumes p: "plainName name"
  shows "\<exists>r out. tidy r (out @ nameElems name) \<and> Join d name = render r (out @ nameElems name) \<and>
     (\<forall>wd. resolve wd d = applyElems (if r then [] else wd) out)"
proof (cases "d = []")
  case True
  from plainName_relative [OF p] have ne: "name \<noteq> []" and rel: "hd name \<noteq> Separator" by simp_all
  have sf: "\<forall>e \<in> set (splitSep name). Separator \<notin> set e" by (blast dest: splitSep_slashFree)
  have "tidy False (cleanElems False [] (splitSep name))" by (rule cleanElems_tidy [OF tidy_Nil sf])
  then have t: "tidy False ([] @ nameElems name)" by (simp add: cleanElems_plain [OF p])
  have j: "Join d name = render False ([] @ nameElems name)"
    using True ne rel Clean_elems [OF ne] by (simp add: Join_def cleanElems_plain [OF p])
  have "resolve wd d = applyElems (if False then [] else wd) []" for wd
    using True by (simp add: resolve_def)
  with t j show ?thesis by blast
next
  case False
  let ?s = "d @ Separator # name"
  let ?r = "hd d = Separator"
  let ?out = "cleanElems ?r [] (splitSep d)"
  from False have s: "?s \<noteq> []" and h: "hd ?s = hd d" by simp_all
  have sf: "\<forall>e \<in> set (splitSep ?s). Separator \<notin> set e" by (blast dest: splitSep_slashFree)
  have el: "cleanElems ?r [] (splitSep ?s) = ?out @ nameElems name"
    by (simp add: splitSep_at_separator cleanElems_append cleanElems_plain [OF p])
  have "tidy ?r (cleanElems ?r [] (splitSep ?s))" by (rule cleanElems_tidy [OF tidy_Nil sf])
  with el have t: "tidy ?r (?out @ nameElems name)" by simp
  have j: "Join d name = render ?r (?out @ nameElems name)"
    using False Clean_elems [OF s] h el by (simp add: Join_def)
  have "resolve wd d = applyElems (if ?r then [] else wd) ?out" for wd
    using resolve_elems [OF False] by simp
  with t j show ?thesis by blast
qed

lemma resolve_Join_plain:
  assumes "plainName name"
  shows "resolve wd (Join d name) = resolve wd d @ nameElems name"
proof -
  from Join_plain [OF assms, of d] obtain r out
    where t: "tidy r (out @ nameElems name)" and j: "Join d name = render r (out @ nameElems name)"
      and d: "\<And>wd. resolve wd d = applyElems (if r then [] else wd) out"
    by blast
  from assms have re: "\<forall>e \<in> set (nameElems name). real e" by (simp add: plainName_def)
  show ?thesis
    using resolve_render [OF t, of wd] j d [of wd] re
    by (simp add: applyElems_append applyElems_real)
qed




text \<open>
  An invariant of the extraction. A relation \<open>Inv\<close> between file systems, indexed by the
  resolved extraction directory, that every step of the loop on an entry with an \<open>ok\<close>
  name keeps, and that passes from the directory of a nested archive to the extraction
  directory, holds between the start and the end of every run whose archives are within
  \<open>S\<close>. By induction on the number of nested calls and, for the loop, on the entries.
\<close>

lemma OpenReader_Inr:
  assumes "OpenReader v z = Inr reader"
  shows "\<exists>c. fileAt v (resolve (cwd v) z) = Some c \<and> archives v c = Some reader"
  using assms
  by (auto simp: OpenReader_def fileAt_def split: if_splits option.splits node.splits)

lemma fileOpen_Inr: "fileOpen f = Inr src \<Longrightarrow> fileData f = src"
  by (cases "fileData f") auto

lemma Copy_None:
  assumes "Copy v p src = (v1, None)"
  shows "\<exists>c. src = Readable c \<and> v1 = store v (resolve (cwd v) p) (FileNode c)"
  using assms by (cases src) auto

lemma fileAt_store:
  "fileAt (store v p (FileNode c)) q =
     (if q = [] then None else if q = p then Some c else fileAt v q)"
  by (simp add: fileAt_def lookup_store)

lemma extractFiles_single_invariant:
  fixes Inv :: "string list \<Rightarrow> world \<Rightarrow> world \<Rightarrow> bool"
  assumes nested: "\<And>v z d v' e. cwd v = wd \<Longrightarrow> archives v = A \<Longrightarrow>
        (\<forall>c. fileAt v (resolve wd z) = Some c \<longrightarrow> c \<in> S) \<Longrightarrow>
        extractZipFiles n v z d = Some (v', e) \<Longrightarrow> Inv (resolve wd d) v v'"
    and refl: "\<And>R v. Inv R v v"
    and trans: "\<And>R a b c. Inv R a b \<Longrightarrow> Inv R b c \<Longrightarrow> Inv R a c"
    and pres: "\<And>R a b. Inv R a b \<Longrightarrow> cwd b = cwd a \<and> archives b = archives a"
    and mkEntry: "\<And>v d name v1. cwd v = wd \<Longrightarrow> ok name \<Longrightarrow> \<not> HasPrefix name ''__MACOSX/'' \<Longrightarrow>
        MkdirAll v (Join d name) = Inr v1 \<Longrightarrow> Inv (resolve wd d) v v1"
    and mkDir: "\<And>v d name v1. cwd v = wd \<Longrightarrow> ok name \<Longrightarrow> \<not> HasPrefix name ''__MACOSX/'' \<Longrightarrow>
        MkdirAll v (Dir (Join d name)) = Inr v1 \<Longrightarrow> Inv (resolve wd d) v v1"
    and openFile: "\<And>v d name v1. cwd v = wd \<Longrightarrow> ok name \<Longrightarrow> \<not> HasPrefix name ''__MACOSX/'' \<Longrightarrow>
        OpenFile v (Join d name) = Inr v1 \<Longrightarrow> Inv (resolve wd d) v v1"
    and copy: "\<And>v d name src v1 e. cwd v = wd \<Longrightarrow> ok name \<Longrightarrow> \<not> HasPrefix name ''__MACOSX/'' \<Longrightarrow>
        Copy v (Join d name) src = (v1, e) \<Longrightarrow> Inv (resolve wd d) v v1"
    and remove: "\<And>v d name v1. cwd v = wd \<Longrightarrow> ok name \<Longrightarrow> \<not> HasPrefix name ''__MACOSX/'' \<Longrightarrow>
        Remove v (Join d name) = Inr v1 \<Longrightarrow> Inv (resolve wd d) v v1"
    and nest: "\<And>v d name v1. ok name \<Longrightarrow> \<not> HasPrefix name ''__MACOSX/'' \<Longrightarrow>
        Inv (resolve wd (Dir (Join d name))) v v1 \<Longrightarrow> Inv (resolve wd d) v v1"
    and c0: "cwd w = wd" and a0: "archives w = A"
    and good: "nestedEntry S ok f"
    and run: "extractFiles n w root [f] = Some (w', r)"
  shows "Inv (resolve wd root) w w'"
proof -
  let ?R = "resolve wd root"
  let ?name = "fileName f"
  let ?path = "Join root ?name"
  show ?thesis
  proof (cases "HasPrefix ?name ''__MACOSX/''")
    case True
    with run show ?thesis by (simp add: refl)
  next
    case notS: False
    with good have ok: "ok ?name"
      and inS: "HasSuffix ?name ''.zip'' \<Longrightarrow> fileData f = Readable c \<Longrightarrow> c \<in> S" for c
      by (simp_all add: nestedEntry_def)
    show ?thesis
    proof (cases "HasPrefix (Clean ?path) (Clean root @ [Separator])")
      case False
      with notS run show ?thesis by (auto simp: Let_def refl)
    next
      case chk: True
      show ?thesis
      proof (cases "entryIsDir f")
        case True
        show ?thesis
        proof (cases "MkdirAll w ?path")
          case (Inl err)
          with True notS chk run show ?thesis by (simp add: Let_def refl)
        next
          case (Inr w1)
          with True notS chk run have "w' = w1" by (simp add: Let_def)
          with mkEntry [OF c0 ok notS Inr] show ?thesis by simp
        qed
      next
        case isFile: False
        show ?thesis
        proof (cases "MkdirAll w (Dir ?path)")
          case (Inl err)
          with notS chk isFile run show ?thesis by (simp add: Let_def refl)
        next
          case w1: (Inr w1)
          from mkDir [OF c0 ok notS w1] have s1: "Inv ?R w w1" .
          from pres [OF s1] c0 a0 have c1: "cwd w1 = wd" and a1: "archives w1 = A" by simp_all
          show ?thesis
          proof (cases "fileOpen f")
            case (Inl err)
            with notS chk isFile w1 run have "w' = w1" by (simp add: Let_def)
            with s1 show ?thesis by simp
          next
            case src: (Inr src)
            show ?thesis
            proof (cases "OpenFile w1 ?path")
              case (Inl err)
              with notS chk isFile w1 src run have "w' = w1" by (simp add: Let_def)
              with s1 show ?thesis by simp
            next
              case w2: (Inr w2)
              from openFile [OF c1 ok notS w2] have s2: "Inv ?R w1 w2" .
              from pres [OF s2] c1 a1 have c2: "cwd w2 = wd" and a2: "archives w2 = A" by simp_all
              obtain w3 e3 where w3: "Copy w2 ?path src = (w3, e3)" by (cases "Copy w2 ?path src")
              from copy [OF c2 ok notS w3] have s23: "Inv ?R w2 w3" .
              from pres [OF s23] c2 a2 have c3: "cwd w3 = wd" and a3: "archives w3 = A" by simp_all
              from s1 s2 s23 have s3: "Inv ?R w w3" by (blast intro: trans)
              show ?thesis
              proof (cases e3)
                case (Some err)
                with notS chk isFile w1 src w2 w3 run have "w' = w3" by (simp add: Let_def)
                with s3 show ?thesis by simp
              next
                case None
                show ?thesis
                proof (cases "HasSuffix ?name ''.zip''")
                  case False
                  with None notS chk isFile w1 src w2 w3 run have "w' = w3" by (simp add: Let_def)
                  with s3 show ?thesis by simp
                next
                  case zip: True
                  from w3 None Copy_None [of w2 ?path src w3] c2 obtain c
                    where sc: "src = Readable c"
                      and st: "w3 = store w2 (resolve wd ?path) (FileNode c)"
                    by auto
                  from fileOpen_Inr [OF src] sc have "fileData f = Readable c" by simp
                  from inS [OF zip this] have cS: "c \<in> S" .
                  have at: "\<forall>b. fileAt w3 (resolve wd ?path) = Some b \<longrightarrow> b \<in> S"
                    using st cS by (simp add: fileAt_store)
                  show ?thesis
                  proof (cases "extractZipFiles n w3 ?path (Dir ?path)")
                    case none: None
                    with zip None notS chk isFile w1 src w2 w3 run show ?thesis
                      by (simp add: Let_def)
                  next
                    case (Some res)
                    then obtain w4 e4 where
                      w4: "extractZipFiles n w3 ?path (Dir ?path) = Some (w4, e4)"
                      by (cases res) simp
                    from nested [OF c3 a3 at w4] have "Inv (resolve wd (Dir ?path)) w3 w4" .
                    from nest [OF ok notS this] have s34: "Inv ?R w3 w4" .
                    from pres [OF s34] c3 have c4: "cwd w4 = wd" by simp
                    from s3 s34 have s4: "Inv ?R w w4" by (rule trans)
                    show ?thesis
                    proof (cases e4)
                      case (Some err)
                      with w4 zip None notS chk isFile w1 src w2 w3 run have "w' = w4"
                        by (simp add: Let_def)
                      with s4 show ?thesis by simp
                    next
                      case fine: None
                      show ?thesis
                      proof (cases "Remove w4 ?path")
                        case (Inl err)
                        with fine w4 zip None notS chk isFile w1 src w2 w3 run have "w' = w4"
                          by (simp add: Let_def)
                        with s4 show ?thesis by simp
                      next
                        case w5: (Inr w5)
                        with fine w4 zip None notS chk isFile w1 src w2 w3 run have e: "w' = w5"
                          by (simp add: Let_def)
                        from remove [OF c4 ok notS w5] have "Inv ?R w4 w5" .
                        with s4 e show ?thesis by (blast intro: trans)
                      qed
                    qed
                  qed
                qed
              qed
            qed
          qed
        qed
      qed
    qed
  qed
qed

lemma extractFiles_invariant:
  fixes Inv :: "string list \<Rightarrow> world \<Rightarrow> world \<Rightarrow> bool"
  assumes nested: "\<And>v z d v' e. cwd v = wd \<Longrightarrow> archives v = A \<Longrightarrow>
        (\<forall>c. fileAt v (resolve wd z) = Some c \<longrightarrow> c \<in> S) \<Longrightarrow>
        extractZipFiles n v z d = Some (v', e) \<Longrightarrow> Inv (resolve wd d) v v'"
    and refl: "\<And>R v. Inv R v v"
    and trans: "\<And>R a b c. Inv R a b \<Longrightarrow> Inv R b c \<Longrightarrow> Inv R a c"
    and pres: "\<And>R a b. Inv R a b \<Longrightarrow> cwd b = cwd a \<and> archives b = archives a"
    and mkEntry: "\<And>v d name v1. cwd v = wd \<Longrightarrow> ok name \<Longrightarrow> \<not> HasPrefix name ''__MACOSX/'' \<Longrightarrow>
        MkdirAll v (Join d name) = Inr v1 \<Longrightarrow> Inv (resolve wd d) v v1"
    and mkDir: "\<And>v d name v1. cwd v = wd \<Longrightarrow> ok name \<Longrightarrow> \<not> HasPrefix name ''__MACOSX/'' \<Longrightarrow>
        MkdirAll v (Dir (Join d name)) = Inr v1 \<Longrightarrow> Inv (resolve wd d) v v1"
    and openFile: "\<And>v d name v1. cwd v = wd \<Longrightarrow> ok name \<Longrightarrow> \<not> HasPrefix name ''__MACOSX/'' \<Longrightarrow>
        OpenFile v (Join d name) = Inr v1 \<Longrightarrow> Inv (resolve wd d) v v1"
    and copy: "\<And>v d name src v1 e. cwd v = wd \<Longrightarrow> ok name \<Longrightarrow> \<not> HasPrefix name ''__MACOSX/'' \<Longrightarrow>
        Copy v (Join d name) src = (v1, e) \<Longrightarrow> Inv (resolve wd d) v v1"
    and remove: "\<And>v d name v1. cwd v = wd \<Longrightarrow> ok name \<Longrightarrow> \<not> HasPrefix name ''__MACOSX/'' \<Longrightarrow>
        Remove v (Join d name) = Inr v1 \<Longrightarrow> Inv (resolve wd d) v v1"
    and nest: "\<And>v d name v1. ok name \<Longrightarrow> \<not> HasPrefix name ''__MACOSX/'' \<Longrightarrow>
        Inv (resolve wd (Dir (Join d name))) v v1 \<Longrightarrow> Inv (resolve wd d) v v1"
  shows "cwd w = wd \<Longrightarrow> archives w = A \<Longrightarrow> \<forall>f \<in> set fs. nestedEntry S ok f \<Longrightarrow>
     extractFiles n w root fs = Some (w', r) \<Longrightarrow> Inv (resolve wd root) w w'"
proof (induction fs arbitrary: w)
  case Nil
  then show ?case by (simp add: refl)
next
  case (Cons f fs)
  from Cons.prems(3) have gf: "nestedEntry S ok f" and gfs: "\<forall>f \<in> set fs. nestedEntry S ok f"
    by simp_all
  show ?case
  proof (cases "extractFiles n w root [f]")
    case None
    with Cons.prems(4) show ?thesis by (subst (asm) extractFiles_Cons) simp
  next
    case (Some res)
    then obtain w1 e1 where one: "extractFiles n w root [f] = Some (w1, e1)" by (cases res) simp
    have s1: "Inv (resolve wd root) w w1"
      by (rule extractFiles_single_invariant [where Inv = Inv and ok = ok,
            OF nested refl trans pres mkEntry mkDir openFile copy remove nest
               Cons.prems(1) Cons.prems(2) gf one])
    from pres [OF s1] Cons.prems(1) Cons.prems(2)
    have c1: "cwd w1 = wd" and a1: "archives w1 = A" by simp_all
    show ?thesis
    proof (cases e1)
      case (Some err)
      with one Cons.prems(4) have "w' = w1" by (subst (asm) extractFiles_Cons) simp
      with s1 show ?thesis by simp
    next
      case None
      with one Cons.prems(4) have "extractFiles n w1 root fs = Some (w', r)"
        by (subst (asm) extractFiles_Cons) simp
      from Cons.IH [OF c1 a1 gfs this] have "Inv (resolve wd root) w1 w'" .
      with s1 show ?thesis by (rule trans)
    qed
  qed
qed

lemma extractZipFiles_invariant:
  fixes Inv :: "string list \<Rightarrow> world \<Rightarrow> world \<Rightarrow> bool"
  assumes closed: "archivesWithin A S ok"
    and refl: "\<And>R v. Inv R v v"
    and trans: "\<And>R a b c. Inv R a b \<Longrightarrow> Inv R b c \<Longrightarrow> Inv R a c"
    and pres: "\<And>R a b. Inv R a b \<Longrightarrow> cwd b = cwd a \<and> archives b = archives a"
    and mkRoot: "\<And>v d v1. cwd v = wd \<Longrightarrow> MkdirAll v d = Inr v1 \<Longrightarrow> Inv (resolve wd d) v v1"
    and mkEntry: "\<And>v d name v1. cwd v = wd \<Longrightarrow> ok name \<Longrightarrow> \<not> HasPrefix name ''__MACOSX/'' \<Longrightarrow>
        MkdirAll v (Join d name) = Inr v1 \<Longrightarrow> Inv (resolve wd d) v v1"
    and mkDir: "\<And>v d name v1. cwd v = wd \<Longrightarrow> ok name \<Longrightarrow> \<not> HasPrefix name ''__MACOSX/'' \<Longrightarrow>
        MkdirAll v (Dir (Join d name)) = Inr v1 \<Longrightarrow> Inv (resolve wd d) v v1"
    and openFile: "\<And>v d name v1. cwd v = wd \<Longrightarrow> ok name \<Longrightarrow> \<not> HasPrefix name ''__MACOSX/'' \<Longrightarrow>
        OpenFile v (Join d name) = Inr v1 \<Longrightarrow> Inv (resolve wd d) v v1"
    and copy: "\<And>v d name src v1 e. cwd v = wd \<Longrightarrow> ok name \<Longrightarrow> \<not> HasPrefix name ''__MACOSX/'' \<Longrightarrow>
        Copy v (Join d name) src = (v1, e) \<Longrightarrow> Inv (resolve wd d) v v1"
    and remove: "\<And>v d name v1. cwd v = wd \<Longrightarrow> ok name \<Longrightarrow> \<not> HasPrefix name ''__MACOSX/'' \<Longrightarrow>
        Remove v (Join d name) = Inr v1 \<Longrightarrow> Inv (resolve wd d) v v1"
    and nest: "\<And>v d name v1. ok name \<Longrightarrow> \<not> HasPrefix name ''__MACOSX/'' \<Longrightarrow>
        Inv (resolve wd (Dir (Join d name))) v v1 \<Longrightarrow> Inv (resolve wd d) v v1"
  shows "cwd w = wd \<Longrightarrow> archives w = A \<Longrightarrow>
     (\<forall>c. fileAt w (resolve wd z) = Some c \<longrightarrow> c \<in> S) \<Longrightarrow>
     extractZipFiles n w z root = Some (w', r) \<Longrightarrow> Inv (resolve wd root) w w'"
proof (induction n arbitrary: w z root w' r)
  case 0
  then show ?case by simp
next
  case (Suc n)
  let ?R = "resolve wd root"
  show ?case
  proof (cases "MkdirAll w root")
    case (Inl err)
    with Suc.prems(4) show ?thesis by (simp add: refl)
  next
    case w1: (Inr w1)
    from mkRoot [OF Suc.prems(1) w1] have s1: "Inv ?R w w1" .
    from pres [OF s1] Suc.prems(1) Suc.prems(2)
    have c1: "cwd w1 = wd" and a1: "archives w1 = A" by simp_all
    show ?thesis
    proof (cases "OpenReader w1 z")
      case (Inl err)
      with w1 Suc.prems(4) have "w' = w1" by simp
      with s1 show ?thesis by simp
    next
      case (Inr reader)
      with w1 Suc.prems(4) have run: "extractFiles n w1 root reader = Some (w', r)" by simp
      from OpenReader_Inr [OF Inr] c1 a1 obtain c
        where at: "fileAt w1 (resolve wd z) = Some c" and ar: "A c = Some reader"
        by auto
      from at fileAt_MkdirAll [OF w1] Suc.prems(3) have "c \<in> S" by simp
      with closed ar have good: "\<forall>f \<in> set reader. nestedEntry S ok f"
        by (auto simp: archivesWithin_def)
      have "Inv ?R w1 w'"
        by (rule extractFiles_invariant [where Inv = Inv and ok = ok,
              OF Suc.IH refl trans pres mkEntry mkDir openFile copy remove nest c1 a1 good run])
      with s1 show ?thesis by (rule trans)
    qed
  qed
qed

text \<open>The file at a path that no entry is written to stays as it is; and the recursive call
  on an archive just written creates no directory and opens that archive.\<close>

lemma plain_missesPath:
  assumes "plainName name" and "p = [] \<or> last (nameElems name) \<noteq> last p"
  shows "missesPath wd p name"
proof -
  from assms(1) have ne: "nameElems name \<noteq> []" by (simp add: plainName_def)
  have "resolve wd (Join root name) \<noteq> p" for root
  proof
    assume "resolve wd (Join root name) = p"
    then have "p = resolve wd root @ nameElems name"
      by (simp add: resolve_Join_plain [OF assms(1)])
    with ne assms(2) show False by simp
  qed
  then show ?thesis by (simp add: missesPath_def)
qed

lemma MkdirAll_setting: "MkdirAll v p = Inr v1 \<Longrightarrow> cwd v1 = cwd v \<and> archives v1 = archives v"
  by (auto simp: MkdirAll_def Let_def split: if_splits)

lemma archives_store: "archives (store v p n) = archives v"
  by (simp add: store_def)

lemma archives_erase: "archives (erase v p) = archives v"
  by (simp add: erase_def)

lemma fileAt_erase: "fileAt (erase v p) q = (if q = [] \<or> q = p then None else fileAt v q)"
  by (simp add: fileAt_def lookup_erase)

lemma fileAt_Nil: "fileAt v [] = None"
  by (simp add: fileAt_def lookup_Nil)

lemma OpenFile_Inr:
  assumes "OpenFile v p = Inr v1"
  shows "p \<noteq> [] \<and> \<not> isDir v (resolve (cwd v) p) \<and> v1 = store v (resolve (cwd v) p) (FileNode [])"
  using assms by (auto simp: OpenFile_def Let_def split: if_splits)

lemma Copy_store:
  assumes "Copy v p src = (v1, e)"
  shows "v1 = v \<or> (\<exists>c. v1 = store v (resolve (cwd v) p) (FileNode c))"
  using assms by (cases src) auto

lemma Remove_Inr:
  assumes "Remove v p = Inr v1"
  shows "v1 = erase v (resolve (cwd v) p)"
  using assms by (auto simp: Remove_def Let_def split: if_splits)

lemma sameFileAt_store:
  "q \<noteq> p \<Longrightarrow> sameFileAt p R v (store v q (FileNode c))"
  by (simp add: sameFileAt_def cwd_store archives_store fileAt_store fileAt_Nil)

lemma sameFileAt_erase:
  "q \<noteq> p \<Longrightarrow> sameFileAt p R v (erase v q)"
  by (simp add: sameFileAt_def cwd_erase archives_erase fileAt_erase fileAt_Nil)

lemma sameFileAt_MkdirAll: "MkdirAll v path = Inr v1 \<Longrightarrow> sameFileAt p R v v1"
  by (simp add: sameFileAt_def MkdirAll_setting fileAt_MkdirAll)

lemma kept_by_nested_extraction:
  assumes closed: "archivesWithin A S (missesPath wd p)"
    and "cwd w = wd" and "archives w = A"
    and "\<forall>c. fileAt w (resolve wd z) = Some c \<longrightarrow> c \<in> S"
    and "extractZipFiles n w z root = Some (w', r)"
  shows "sameFileAt p (resolve wd root) w w'"
proof (rule extractZipFiles_invariant [where Inv = "sameFileAt p" and ok = "missesPath wd p",
      OF closed _ _ _ _ _ _ _ _ _ _ assms(2) assms(3) assms(4) assms(5)])
  show "sameFileAt p R v v" for R v by (simp add: sameFileAt_def)
  show "sameFileAt p R a b \<Longrightarrow> sameFileAt p R b c \<Longrightarrow> sameFileAt p R a c" for R a b c
    by (simp add: sameFileAt_def)
  show "sameFileAt p R a b \<Longrightarrow> cwd b = cwd a \<and> archives b = archives a" for R a b
    by (simp add: sameFileAt_def)
  show "cwd v = wd \<Longrightarrow> MkdirAll v d = Inr v1 \<Longrightarrow> sameFileAt p (resolve wd d) v v1" for v d v1
    by (rule sameFileAt_MkdirAll)
  show "cwd v = wd \<Longrightarrow> missesPath wd p name \<Longrightarrow> \<not> HasPrefix name ''__MACOSX/'' \<Longrightarrow>
      MkdirAll v (Join d name) = Inr v1 \<Longrightarrow> sameFileAt p (resolve wd d) v v1" for v d name v1
    by (rule sameFileAt_MkdirAll)
  show "cwd v = wd \<Longrightarrow> missesPath wd p name \<Longrightarrow> \<not> HasPrefix name ''__MACOSX/'' \<Longrightarrow>
      MkdirAll v (Dir (Join d name)) = Inr v1 \<Longrightarrow> sameFileAt p (resolve wd d) v v1" for v d name v1
    by (rule sameFileAt_MkdirAll)
  show "cwd v = wd \<Longrightarrow> missesPath wd p name \<Longrightarrow> \<not> HasPrefix name ''__MACOSX/'' \<Longrightarrow>
      OpenFile v (Join d name) = Inr v1 \<Longrightarrow> sameFileAt p (resolve wd d) v v1" for v d name v1
    using OpenFile_Inr [of v "Join d name" v1]
    by (auto simp: missesPath_def intro: sameFileAt_store)
  show "cwd v = wd \<Longrightarrow> missesPath wd p name \<Longrightarrow> \<not> HasPrefix name ''__MACOSX/'' \<Longrightarrow>
      Copy v (Join d name) src = (v1, e) \<Longrightarrow> sameFileAt p (resolve wd d) v v1" for v d name src v1 e
  proof -
    assume a: "cwd v = wd" "missesPath wd p name" "Copy v (Join d name) src = (v1, e)"
    from Copy_store [OF a(3)] show ?thesis
    proof
      assume "v1 = v"
      then show ?thesis by (simp add: sameFileAt_def)
    next
      assume "\<exists>c. v1 = store v (resolve (cwd v) (Join d name)) (FileNode c)"
      with a(1) a(2) show ?thesis by (auto simp: missesPath_def intro: sameFileAt_store)
    qed
  qed
  show "cwd v = wd \<Longrightarrow> missesPath wd p name \<Longrightarrow> \<not> HasPrefix name ''__MACOSX/'' \<Longrightarrow>
      Remove v (Join d name) = Inr v1 \<Longrightarrow> sameFileAt p (resolve wd d) v v1" for v d name v1
    using Remove_Inr [of v "Join d name" v1]
    by (auto simp: missesPath_def intro: sameFileAt_erase)
  show "missesPath wd p name \<Longrightarrow> \<not> HasPrefix name ''__MACOSX/'' \<Longrightarrow>
      sameFileAt p (resolve wd (Dir (Join d name))) v v1 \<Longrightarrow> sameFileAt p (resolve wd d) v v1"
    for v d name v1
    by (simp add: sameFileAt_def)
qed

lemma MkdirAll_dirs:
  assumes "MkdirAll w path = Inr w1" and "q \<in> set (dirsAlong [] (resolve (cwd w) path))"
  shows "isDir w1 q"
proof -
  from assms(1) have "\<not> list_ex (isFile w) (dirsAlong [] (resolve (cwd w) path))"
    by (auto simp: MkdirAll_def Let_def split: if_splits)
  with assms(2) have "\<not> isFile w q" by (auto simp: list_ex_iff)
  then have "lookup w q = None \<or> lookup w q = Some DirNode"
    by (cases "lookup w q") (auto simp: isFile_def split: node.splits)
  with lookup_MkdirAll [OF assms(1), of q] assms(2) show ?thesis by (auto simp: isDir_def)
qed

lemma Clean_nonempty: "Clean s \<noteq> []"
proof -
  obtain r out where "tidy r out" and "Clean s = render r out" using Clean_shape [of s] by blast
  with render_rooted [of r out] show ?thesis by simp
qed

lemma Dir_nonempty: "Dir path \<noteq> []"
  by (simp add: Dir_def Clean_nonempty)

lemma written_archive_opened:
  assumes m: "MkdirAll w (Dir path) = Inr w1"
    and o: "OpenFile w1 path = Inr w2"
    and c: "Copy w2 path (Readable bytes) = (w3, r)"
  shows "MkdirAll w3 (Dir path) = Inr w3 \<and>
         fileAt w3 (resolve (cwd w) path) = Some bytes \<and> cwd w3 = cwd w \<and> archives w3 = archives w \<and>
         OpenReader w3 path =
           (case archives w bytes of None \<Rightarrow> Inl ZipFormatError | Some reader \<Rightarrow> Inr reader)"
proof -
  let ?P = "resolve (cwd w) path"
  let ?D = "resolve (cwd w) (Dir path)"
  from MkdirAll_setting [OF m] have c1: "cwd w1 = cwd w" and a1: "archives w1 = archives w"
    by simp_all
  from OpenFile_Inr [OF o] c1 have pne: "path \<noteq> []" and nd: "\<not> isDir w1 ?P"
    and w2: "w2 = store w1 ?P (FileNode [])"
    by simp_all
  from nd have Pne: "?P \<noteq> []" by (auto simp: isDir_def lookup_Nil)
  from c w2 c1 have w3: "w3 = store w2 ?P (FileNode bytes)" by (simp add: cwd_store)
  have c3: "cwd w3 = cwd w" and a3: "archives w3 = archives w"
    using w3 w2 c1 a1 by (simp_all add: cwd_store archives_store)
  have at: "lookup w3 ?P = Some (FileNode bytes)" using w3 Pne by (simp add: lookup_store)
  have dirs: "isDir w3 q" if "q \<in> set (dirsAlong [] ?D)" for q
  proof -
    from MkdirAll_dirs [OF m that] have d: "isDir w1 q" .
    with nd have "q \<noteq> ?P" by auto
    with d w3 w2 show ?thesis by (simp add: isDir_def lookup_store)
  qed
  then have nf: "\<not> list_ex (isFile w3) (dirsAlong [] (resolve (cwd w3) (Dir path)))"
    using c3 by (auto simp: list_ex_iff isFile_def isDir_def)
  from MkdirAll_succeeds [OF Dir_nonempty nf] obtain w4 where m3: "MkdirAll w3 (Dir path) = Inr w4" ..
  from MkdirAll_same_iff [OF m3] dirs c3 have "w4 = w3" by simp
  with m3 have "MkdirAll w3 (Dir path) = Inr w3" by simp
  moreover from at have "fileAt w3 ?P = Some bytes" by (simp add: fileAt_def)
  moreover from at pne c3 a3 have "OpenReader w3 path =
      (case archives w bytes of None \<Rightarrow> Inl ZipFormatError | Some reader \<Rightarrow> Inr reader)"
    by (simp add: OpenReader_def)
  ultimately show ?thesis using c3 a3 by simp
qed












text \<open>The sample runs, and the count of the upload walk.\<close>

lemmas nested_defs = nestedWorld_def nestedArchives_def



section \<open>Claims about the extraction\<close>







text \<open>
  Claim C2, as stated, ends: if the nested extraction fails, the nested archive file
  remains on disk. It need not: the nested extraction can itself write and remove a file
  at that path. Archive \<open>A\<close> is extracted into \<open>/out\<close>; its entry \<open>inner.zip\<close> is written
  and extracted; that archive holds \<open>b.zip\<close>, whose own entry \<open>inner.zip\<close> (an empty
  archive) replaces \<open>/out/inner.zip\<close>, is extracted and removed; then the entry \<open>../x\<close>
  fails the extraction of the first \<open>inner.zip\<close>, the whole run returns that error, and
  \<open>/out/inner.zip\<close> is gone.
\<close>

theorem failed_nested_archive_may_be_gone:
  "extractZipFiles 3
     (store (sampleWorld\<lparr>table := ([''out''], DirNode) # table sampleWorld\<rparr>)
        [''out'', ''inner.zip''] (FileNode ''Z1''))
     ''/out/inner.zip'' ''/out'' =
     Some (sampleWorld\<lparr>table := ([''out''], DirNode) # table sampleWorld\<rparr>,
           Some (IllegalFilePath ''../x'')) \<and>
   extractZipFiles 4 sampleWorld ''/a.zip'' ''/out'' =
     Some (sampleWorld\<lparr>table := ([''out''], DirNode) # table sampleWorld\<rparr>,
           Some (IllegalFilePath ''../x'')) \<and>
   lookup (sampleWorld\<lparr>table := ([''out''], DirNode) # table sampleWorld\<rparr>)
     (resolve (cwd sampleWorld) ''/out/inner.zip'') = None"
  by (simp add: extract_defs eval_nat_numeral)

text \<open>
  Claim C2, amended. An entry that is a regular file, passes the checks, is written in
  full and has a name ending in \<open>.zip\<close>. The extraction calls itself on the path just
  written, with the directory of that path as the extraction directory; that call
  creates no directory, opens the file just written and runs the loop on the entries of
  the archive that the bytes of the entry hold. Provided no entry inside that archive, at
  any depth of nesting, has a name that leads to the path of the nested archive itself,
  whatever the extraction directory (\<open>missesPath\<close>; a plain name with another last
  element is such a name): when the call returns, with or without an error, the nested
  archive is still at its path with its bytes. If the call failed, its error is returned and nothing more is done, so the
  file remains. If it succeeded, the file is removed and the loop goes on with the next
  entry.
\<close>

theorem nested_archive_extracted_then_removed:
  assumes "extractFiles n w0 extractPath pre = Some (w, None)"
    and "\<not> HasPrefix (fileName f) ''__MACOSX/''"
    and "path = Join extractPath (fileName f)"
    and "HasPrefix (Clean path) (Clean extractPath @ [Separator])"
    and "\<not> entryIsDir f"
    and "MkdirAll w (Dir path) = Inr w1"
    and "fileData f = Readable bytes"
    and "OpenFile w1 path = Inr w2"
    and "Copy w2 path (Readable bytes) = (w3, None)"
    and "HasSuffix (fileName f) ''.zip''"
    and "bytes \<in> S"
    and "archivesWithin (archives w) S (missesPath (cwd w) (resolve (cwd w) path))"
  shows "extractZipFiles (Suc m) w3 path (Dir path) =
           (case archives w bytes of
              None \<Rightarrow> Some (w3, Some ZipFormatError)
            | Some reader \<Rightarrow> extractFiles m w3 (Dir path) reader) \<and>
         extractFiles n w0 extractPath (pre @ f # rest) =
           (case extractZipFiles n w3 path (Dir path) of
              None \<Rightarrow> None
            | Some (w4, Some err) \<Rightarrow> Some (w4, Some err)
            | Some (w4, None) \<Rightarrow>
                extractFiles n (erase w4 (resolve (cwd w) path)) extractPath rest) \<and>
         (\<forall>w4 r. extractZipFiles n w3 path (Dir path) = Some (w4, r) \<longrightarrow>
            fileAt w4 (resolve (cwd w) path) = Some bytes \<and>
            fileAt (erase w4 (resolve (cwd w) path)) (resolve (cwd w) path) = None)"
proof -
  let ?P = "resolve (cwd w) path"
  from written_archive_opened [OF assms(6) assms(8) assms(9)]
  have m3: "MkdirAll w3 (Dir path) = Inr w3" and at: "fileAt w3 ?P = Some bytes"
    and c3: "cwd w3 = cwd w" and a3: "archives w3 = archives w"
    and o3: "OpenReader w3 path =
           (case archives w bytes of None \<Rightarrow> Inl ZipFormatError | Some reader \<Rightarrow> Inr reader)"
    by simp_all
  have 1: "extractZipFiles (Suc m) w3 path (Dir path) =
           (case archives w bytes of
              None \<Rightarrow> Some (w3, Some ZipFormatError)
            | Some reader \<Rightarrow> extractFiles m w3 (Dir path) reader)"
    using m3 o3 by (simp split: option.splits)
  have kept: "fileAt w4 ?P = Some bytes" if "extractZipFiles n w3 path (Dir path) = Some (w4, r)"
    for w4 r
  proof -
    from at assms(11) have "\<forall>c. fileAt w3 (resolve (cwd w) path) = Some c \<longrightarrow> c \<in> S" by simp
    from kept_by_nested_extraction [OF assms(12) c3 a3 this that] at
    show ?thesis by (simp add: sameFileAt_def)
  qed
  have rm: "Remove w4 path = Inr (erase w4 ?P)"
    if "extractZipFiles n w3 path (Dir path) = Some (w4, r)" for w4 r
  proof -
    from at assms(11) have "\<forall>c. fileAt w3 (resolve (cwd w) path) = Some c \<longrightarrow> c \<in> S" by simp
    from kept_by_nested_extraction [OF assms(12) c3 a3 this that] c3
    have c4: "cwd w4 = cwd w" by (simp add: sameFileAt_def)
    from kept [OF that] have l: "lookup w4 ?P = Some (FileNode bytes)"
      by (auto simp: fileAt_def split: option.splits node.splits)
    then have "?P \<noteq> []" by (auto simp: lookup_Nil)
    moreover from OpenFile_Inr [OF assms(8)] have "path \<noteq> []" by simp
    ultimately show ?thesis using l c4 by (simp add: Remove_def Let_def isDir_def)
  qed
  have "extractFiles n w0 extractPath (pre @ f # rest) = extractFiles n w extractPath (f # rest)"
    using assms(1) by (simp add: extractFiles_append)
  also have "\<dots> =
           (case extractZipFiles n w3 path (Dir path) of
              None \<Rightarrow> None
            | Some (w4, Some err) \<Rightarrow> Some (w4, Some err)
            | Some (w4, None) \<Rightarrow>
                (case Remove w4 path of
                   Inl err \<Rightarrow> Some (w4, Some err)
                 | Inr w5 \<Rightarrow> extractFiles n w5 extractPath rest))"
    using assms(2) assms(4-10) unfolding assms(3) by (simp add: Let_def)
  also have "\<dots> =
           (case extractZipFiles n w3 path (Dir path) of
              None \<Rightarrow> None
            | Some (w4, Some err) \<Rightarrow> Some (w4, Some err)
            | Some (w4, None) \<Rightarrow> extractFiles n (erase w4 ?P) extractPath rest)"
    using rm by (auto split: option.splits prod.splits)
  finally have 2: "extractFiles n w0 extractPath (pre @ f # rest) =
           (case extractZipFiles n w3 path (Dir path) of
              None \<Rightarrow> None
            | Some (w4, Some err) \<Rightarrow> Some (w4, Some err)
            | Some (w4, None) \<Rightarrow> extractFiles n (erase w4 ?P) extractPath rest)" .
  from 1 2 kept show ?thesis by (simp add: fileAt_erase)
qed

theorem nested_archive_extracted_then_removed_witness:
  "extractFiles 1 nestedWorld ''/out''
     ([] @ entry ''pkg.zip'' ''N'' # [entry ''after.txt'' ''zz'']) =
     Some (nestedWorld\<lparr>table :=
             [([''out'', ''b.txt''], FileNode ''bb''), ([''out'', ''pkg.zip''], FileNode ''N''),
              ([''out''], DirNode)] @ table nestedWorld\<rparr>,
           Some (PathError ''mkdir'' ''/out/b.txt'' ''not a directory'')) \<and>
   fileAt (nestedWorld\<lparr>table :=
             [([''out'', ''b.txt''], FileNode ''bb''), ([''out'', ''pkg.zip''], FileNode ''N''),
              ([''out''], DirNode)] @ table nestedWorld\<rparr>) [''out'', ''pkg.zip''] = Some ''N'' \<and>
   archivesWithin (archives nestedWorld) {''N''}
     (missesPath (cwd nestedWorld) (resolve (cwd nestedWorld) ''/out/pkg.zip'')) \<and>
   extractFiles 1 nestedWorld ''/out''
     ([] @ entry ''q.zip'' ''Q'' # [entry ''after.txt'' ''zz'']) =
     Some (nestedWorld\<lparr>table :=
             [([''out'', ''after.txt''], FileNode ''zz''), ([''out'', ''b.txt''], FileNode ''bb''),
              ([''out''], DirNode)] @ table nestedWorld\<rparr>, None) \<and>
   fileAt (nestedWorld\<lparr>table :=
             [([''out'', ''b.txt''], FileNode ''bb''), ([''out'', ''q.zip''], FileNode ''Q''),
              ([''out''], DirNode)] @ table nestedWorld\<rparr>) [''out'', ''q.zip''] = Some ''Q''"
proof -
  let ?w1 = "nestedWorld\<lparr>table := ([''out''], DirNode) # table nestedWorld\<rparr>"
  let ?w2 = "store ?w1 [''out'', ''pkg.zip''] (FileNode [])"
  let ?w3 = "store ?w2 [''out'', ''pkg.zip''] (FileNode ''N'')"
  let ?w4 = "nestedWorld\<lparr>table :=
             [([''out'', ''b.txt''], FileNode ''bb''), ([''out'', ''pkg.zip''], FileNode ''N''),
              ([''out''], DirNode)] @ table nestedWorld\<rparr>"
  let ?f = "entry ''pkg.zip'' ''N''"
  let ?e = "PathError ''mkdir'' ''/out/b.txt'' ''not a directory''"
  let ?rest = "[entry ''after.txt'' ''zz'']"
  have h1: "extractFiles 1 nestedWorld ''/out'' [] = Some (nestedWorld, None)" by simp
  have h2: "\<not> HasPrefix (fileName ?f) ''__MACOSX/''" by (simp add: entry_def HasPrefix_def)
  have h3: "''/out/pkg.zip'' = Join ''/out'' (fileName ?f)"
    by (simp add: entry_def Join_def Clean_def Separator_def)
  have h4: "HasPrefix (Clean ''/out/pkg.zip'') (Clean ''/out'' @ [Separator])"
    by (simp add: HasPrefix_def Clean_def Separator_def)
  have h5: "\<not> entryIsDir ?f" by (simp add: entryIsDir_def entry_def Separator_def)
  have h6: "MkdirAll nestedWorld (Dir ''/out/pkg.zip'') = Inr ?w1"
    by (simp add: extract_defs nested_defs)
  have h7: "fileData ?f = Readable ''N''" by (simp add: entry_def)
  have h8: "OpenFile ?w1 ''/out/pkg.zip'' = Inr ?w2" by (simp add: extract_defs nested_defs)
  have h9: "Copy ?w2 ''/out/pkg.zip'' (Readable ''N'') = (?w3, None)"
    by (simp add: extract_defs nested_defs)
  have h10: "HasSuffix (fileName ?f) ''.zip''" by (simp add: entry_def HasSuffix_def)
  have h11: "''N'' \<in> {''N''}" by simp
  have rp: "resolve (cwd nestedWorld) ''/out/pkg.zip'' = [''out'', ''pkg.zip'']"
    by (simp add: extract_defs nested_defs)
  have m1: "missesPath (cwd nestedWorld) [''out'', ''pkg.zip''] ''b.txt''"
    by (rule plain_missesPath) (simp_all add: plainName_def nameElems_def real_def Separator_def)
  have m2: "missesPath (cwd nestedWorld) [''out'', ''pkg.zip''] ''b.txt/''"
    by (rule plain_missesPath) (simp_all add: plainName_def nameElems_def real_def Separator_def)
  have h12: "archivesWithin (archives nestedWorld) {''N''}
     (missesPath (cwd nestedWorld) (resolve (cwd nestedWorld) ''/out/pkg.zip''))"
    unfolding rp using m1 m2
    by (simp add: archivesWithin_def nestedEntry_def nested_defs entry_def HasSuffix_def)
  have n: "extractZipFiles 1 ?w3 ''/out/pkg.zip'' (Dir ''/out/pkg.zip'') = Some (?w4, Some ?e)"
    by (simp add: extract_defs nested_defs)
  note inst = nested_archive_extracted_then_removed [OF h1 h2 h3 h4 h5 h6 h7 h8 h9 h10 h11 h12,
      of 0 ?rest]
  from inst have "extractFiles 1 nestedWorld ''/out'' ([] @ ?f # ?rest) =
      (case extractZipFiles 1 ?w3 ''/out/pkg.zip'' (Dir ''/out/pkg.zip'') of
              None \<Rightarrow> None
            | Some (w4, Some err) \<Rightarrow> Some (w4, Some err)
            | Some (w4, None) \<Rightarrow>
                extractFiles 1 (erase w4 (resolve (cwd nestedWorld) ''/out/pkg.zip'')) ''/out''
                  ?rest)"
    by (rule conjunct2 [THEN conjunct1])
  then have a: "extractFiles 1 nestedWorld ''/out'' ([] @ ?f # ?rest) = Some (?w4, Some ?e)"
    by (simp only: n option.case prod.case)
  from inst n have "fileAt ?w4 (resolve (cwd nestedWorld) ''/out/pkg.zip'') = Some ''N''" by blast
  then have b: "fileAt ?w4 [''out'', ''pkg.zip''] = Some ''N''" by (simp only: rp)
  let ?g = "entry ''q.zip'' ''Q''"
  let ?v2 = "store ?w1 [''out'', ''q.zip''] (FileNode [])"
  let ?v3 = "store ?v2 [''out'', ''q.zip''] (FileNode ''Q'')"
  let ?v4 = "nestedWorld\<lparr>table :=
             [([''out'', ''b.txt''], FileNode ''bb''), ([''out'', ''q.zip''], FileNode ''Q''),
              ([''out''], DirNode)] @ table nestedWorld\<rparr>"
  let ?v5 = "nestedWorld\<lparr>table :=
             [([''out'', ''after.txt''], FileNode ''zz''), ([''out'', ''b.txt''], FileNode ''bb''),
              ([''out''], DirNode)] @ table nestedWorld\<rparr>"
  have g2: "\<not> HasPrefix (fileName ?g) ''__MACOSX/''" by (simp add: entry_def HasPrefix_def)
  have g3: "''/out/q.zip'' = Join ''/out'' (fileName ?g)"
    by (simp add: entry_def Join_def Clean_def Separator_def)
  have g4: "HasPrefix (Clean ''/out/q.zip'') (Clean ''/out'' @ [Separator])"
    by (simp add: HasPrefix_def Clean_def Separator_def)
  have g5: "\<not> entryIsDir ?g" by (simp add: entryIsDir_def entry_def Separator_def)
  have g6: "MkdirAll nestedWorld (Dir ''/out/q.zip'') = Inr ?w1"
    by (simp add: extract_defs nested_defs)
  have g7: "fileData ?g = Readable ''Q''" by (simp add: entry_def)
  have g8: "OpenFile ?w1 ''/out/q.zip'' = Inr ?v2" by (simp add: extract_defs nested_defs)
  have g9: "Copy ?v2 ''/out/q.zip'' (Readable ''Q'') = (?v3, None)"
    by (simp add: extract_defs nested_defs)
  have g10: "HasSuffix (fileName ?g) ''.zip''" by (simp add: entry_def HasSuffix_def)
  have g11: "''Q'' \<in> {''Q''}" by simp
  have rq: "resolve (cwd nestedWorld) ''/out/q.zip'' = [''out'', ''q.zip'']"
    by (simp add: extract_defs nested_defs)
  have k1: "missesPath (cwd nestedWorld) [''out'', ''q.zip''] ''b.txt''"
    by (rule plain_missesPath) (simp_all add: plainName_def nameElems_def real_def Separator_def)
  have g12: "archivesWithin (archives nestedWorld) {''Q''}
     (missesPath (cwd nestedWorld) (resolve (cwd nestedWorld) ''/out/q.zip''))"
    unfolding rq using k1
    by (simp add: archivesWithin_def nestedEntry_def nested_defs entry_def HasSuffix_def
        HasPrefix_def)
  have nq: "extractZipFiles 1 ?v3 ''/out/q.zip'' (Dir ''/out/q.zip'') = Some (?v4, None)"
    by (simp add: extract_defs nested_defs)
  have fin: "extractFiles 1 (erase ?v4 [''out'', ''q.zip'']) ''/out'' ?rest = Some (?v5, None)"
    by (simp add: extract_defs nested_defs)
  note inst2 = nested_archive_extracted_then_removed [OF h1 g2 g3 g4 g5 g6 g7 g8 g9 g10 g11 g12,
      of 0 ?rest]
  from inst2 have "extractFiles 1 nestedWorld ''/out'' ([] @ ?g # ?rest) =
      (case extractZipFiles 1 ?v3 ''/out/q.zip'' (Dir ''/out/q.zip'') of
              None \<Rightarrow> None
            | Some (w4, Some err) \<Rightarrow> Some (w4, Some err)
            | Some (w4, None) \<Rightarrow>
                extractFiles 1 (erase w4 (resolve (cwd nestedWorld) ''/out/q.zip'')) ''/out''
                  ?rest)"
    by (rule conjunct2 [THEN conjunct1])
  then have c: "extractFiles 1 nestedWorld ''/out'' ([] @ ?g # ?rest) = Some (?v5, None)"
    by (simp only: nq rq fin option.case prod.case)
  from inst2 nq have "fileAt ?v4 (resolve (cwd nestedWorld) ''/out/q.zip'') = Some ''Q''" by blast
  then have d: "fileAt ?v4 [''out'', ''q.zip''] = Some ''Q''" by (simp only: rq)
  from a b h12 c d show ?thesis by (simp only: simp_thms)
qed

text \<open>
  Claim C1, as stated: every entry whose name leads outside the extraction directory
  makes the extraction fail with the error naming it. Two runs where the destination
  \<open>Join extractPath name\<close> is not within the extraction directory and no error is
  returned. In the first the entry is under \<open>__MACOSX/\<close>: it is skipped before the check
  (nothing is written for it) and the extraction succeeds. In the second the extraction
  directory is \<open>..\<close>: the check compares the cleaned destination \<open>../../x\<close> with the
  prefix \<open>../\<close>, lets the entry \<open>../x\<close> pass, and the file is written to \<open>/x\<close>, outside
  \<open>/home\<close>.
\<close>

theorem escaping_entries_not_rejected:
  "\<not> within (cwd sampleWorld) ''/out'' (Join ''/out'' ''__MACOSX/../../etc/passwd'') \<and>
   extractZipFiles 1 sampleWorld ''/s.zip'' ''/out'' =
     Some (store (sampleWorld\<lparr>table := ([''out''], DirNode) # table sampleWorld\<rparr>)
             [''out'', ''ok.txt''] (FileNode ''hello''), None) \<and>
   \<not> within (cwd sampleWorld) ''..'' (Join ''..'' ''../x'') \<and>
   resolve (cwd sampleWorld) ''..'' = [''home''] \<and>
   extractZipFiles 1 sampleWorld ''t.zip'' ''..'' =
     Some (store sampleWorld [''x''] (FileNode ''evil''), None)"
  by (simp add: extract_defs within_def properPrefix_def eval_nat_numeral)

text \<open>
  Claim C1, amended. An entry that the loop reaches (the entries before it were processed
  without error), whose name does not start with \<open>__MACOSX/\<close> and whose destination
  \<open>Join extractPath name\<close> does not resolve to a path strictly below the extraction
  directory: the extraction returns the error \<open>illegal file path\<close> naming the entry, and
  the file system is the one the earlier entries left: nothing is created or written for
  the entry, the check comes first. The earlier entries and the archives nested in them
  wrote below the extraction directory only: every file outside it is as it was before
  the run. This is for an extraction directory whose cleaned path does not end in \<open>..\<close>.
\<close>

theorem escaping_entry_rejected_before_any_write:
  assumes "MkdirAll w extractPath = Inr w1"
    and "OpenReader w1 zipFilePath = Inr (pre @ f # rest)"
    and "extractFiles n w1 extractPath pre = Some (w2, None)"
    and "\<not> HasPrefix (fileName f) ''__MACOSX/''"
    and "last (splitSep (Clean extractPath)) \<noteq> ''..''"
    and "\<not> within (cwd w) extractPath (Join extractPath (fileName f))"
  shows "extractFiles n w1 extractPath (pre @ f # rest) =
           Some (w2, Some (IllegalFilePath (fileName f))) \<and>
         extractZipFiles (Suc n) w zipFilePath extractPath =
           Some (w2, Some (IllegalFilePath (fileName f))) \<and>
         sameOutside (resolve (cwd w) extractPath) w w2"
proof -
  have "\<not> HasPrefix (Clean (Join extractPath (fileName f))) (Clean extractPath @ [Separator])"
    using check_within [OF _ assms(5)] assms(6) by blast
  with assms(4) have "extractFiles n w2 extractPath (f # rest) =
      Some (w2, Some (IllegalFilePath (fileName f)))"
    by (simp add: Let_def)
  with assms(3) have loop: "extractFiles n w1 extractPath (pre @ f # rest) =
      Some (w2, Some (IllegalFilePath (fileName f)))"
    by (simp add: extractFiles_append)
  with assms(1) assms(2) have run: "extractZipFiles (Suc n) w zipFilePath extractPath =
      Some (w2, Some (IllegalFilePath (fileName f)))"
    by simp
  from extractZipFiles_frame [OF run assms(5)] loop run show ?thesis by simp
qed

theorem escaping_entry_rejected_before_any_write_witness:
  "MkdirAll sampleWorld ''out'' =
     Inr (sampleWorld\<lparr>table := ([''home'', ''u'', ''out''], DirNode) # table sampleWorld\<rparr>) \<and>
   OpenReader (sampleWorld\<lparr>table := ([''home'', ''u'', ''out''], DirNode) # table sampleWorld\<rparr>)
     ''t.zip'' = Inr ([] @ entry ''../x'' ''evil'' # []) \<and>
   \<not> within (cwd sampleWorld) ''out'' (Join ''out'' (fileName (entry ''../x'' ''evil''))) \<and>
   extractZipFiles (Suc 0) sampleWorld ''t.zip'' ''out'' =
     Some (sampleWorld\<lparr>table := ([''home'', ''u'', ''out''], DirNode) # table sampleWorld\<rparr>,
           Some (IllegalFilePath ''../x'')) \<and>
   sameOutside (resolve (cwd sampleWorld) ''out'') sampleWorld
     (sampleWorld\<lparr>table := ([''home'', ''u'', ''out''], DirNode) # table sampleWorld\<rparr>)"
proof -
  let ?w1 = "sampleWorld\<lparr>table := ([''home'', ''u'', ''out''], DirNode) # table sampleWorld\<rparr>"
  let ?f = "entry ''../x'' ''evil''"
  have h1: "MkdirAll sampleWorld ''out'' = Inr ?w1" by (simp add: extract_defs)
  have h2: "OpenReader ?w1 ''t.zip'' = Inr ([] @ ?f # [])" by (simp add: extract_defs)
  have h3: "extractFiles 0 ?w1 ''out'' [] = Some (?w1, None)" by simp
  have h4: "\<not> HasPrefix (fileName ?f) ''__MACOSX/''" by (simp add: entry_def HasPrefix_def)
  have h5: "last (splitSep (Clean ''out'')) \<noteq> ''..''" by (simp add: Clean_def Separator_def)
  have h6: "\<not> within (cwd sampleWorld) ''out'' (Join ''out'' (fileName ?f))"
    by (simp add: extract_defs within_def properPrefix_def)
  from escaping_entry_rejected_before_any_write [OF h1 h2 h3 h4 h5 h6]
  have "extractZipFiles (Suc 0) sampleWorld ''t.zip'' ''out'' =
      Some (?w1, Some (IllegalFilePath ''../x'')) \<and>
    sameOutside (resolve (cwd sampleWorld) ''out'') sampleWorld ?w1"
    by (simp add: entry_def)
  with h1 h2 h6 show ?thesis by (simp only: simp_thms)
qed

end
